theory Spec2Isabelle
  imports Complex_Main "HOL-Library.Monad_Syntax" "HOL-Library.Sublist"
begin

section \<open>Shape recognition of src/utils/geometry.ts\<close>

text \<open>
  The embedding follows the scored version of \<open>recognize\<close> (lines 1 to 258 of
  \<^verbatim>\<open>src/utils/geometry.ts\<close>) and its helpers.

  Numbers. A JavaScript \<open>number\<close> is modelled as a \<open>real\<close>: \<open>Math.hypot\<close> is the exact
  square root of the sum of squares, \<open>Math.PI\<close> is \<open>pi\<close>, \<open>Math.acos\<close> is \<open>arccos\<close>.
  Rounding, overflow to Infinity and NaN are outside the model; the type \<open>real\<close> has no
  such values, as the specification's Point has none ("real-valued coordinates").
  Where the program decides a comparison by the last bits of a double, the model can
  decide otherwise. Two places are known: the near-square test of \<open>classifyRectangle\<close>
  on a box of sides 6 : 5 (the difference \<open>w / h - 1\<close> is exactly 0.2 here and falls on
  either side of 0.2 in doubles), and the denominator test of \<open>fitCircle\<close> on collinear
  points (the denominator is exactly 0 here and rounding noise in doubles).

  Exceptions. The source has no \<open>throw\<close>. The exception its own statements can raise
  is the TypeError of destructuring, or reading a property of, an array element that does
  not exist (\<open>const [x, y] = points[i]\<close> or \<open>points[i - 1][0]\<close> with \<open>i\<close> out of range).
  Every such read goes through \<open>elemAt\<close>, and a function that performs one returns an
  \<open>option\<close>, where \<open>None\<close> is the TypeError.

  Engine limits. \<open>bbox\<close> passes every coordinate of the stroke as an argument of one
  call (\<open>Math.min(...xs)\<close>), and \<open>rdp\<close> recurses once for every vertex it keeps. A
  JavaScript engine bounds the number of arguments of a call and the depth of the call
  stack, and raises a RangeError beyond them. The model has no such bounds: a list of
  any length is an argument of \<open>Math_min\<close>, and \<open>rdp\<close> recurses to any depth. What is
  proved about a function here is about its runs that stay within the engine's limits.
\<close>

subsection \<open>Data\<close>

type_synonym point = "real \<times> real"

datatype DrawnShape =
    Rect real real real real string
  | Circle real real real string
  | Triangle "point list" string
  | Free "point list" string

record ShapeCandidate =
  shape :: DrawnShape
  confidence :: real

subsection \<open>Primitives\<close>

definition hypot :: "real \<Rightarrow> real \<Rightarrow> real" where
  "hypot a b = sqrt (a * a + b * b)"

text \<open>\<open>v || 1\<close> on numbers: 1 when \<open>v\<close> is 0 (the only falsy real), else \<open>v\<close>.\<close>

definition or1 :: "real \<Rightarrow> real" where
  "or1 v = (if v = 0 then 1 else v)"

text \<open>A read \<open>xs[i]\<close> whose result is destructured: out of range it raises.\<close>

definition elemAt :: "'a list \<Rightarrow> nat \<Rightarrow> 'a option" where
  "elemAt xs i = (if i < length xs then Some (xs ! i) else None)"

text \<open>A loop whose body may raise: the state is threaded, the first \<open>None\<close> ends it.\<close>

fun foldM :: "('a \<Rightarrow> 's \<Rightarrow> 's option) \<Rightarrow> 'a list \<Rightarrow> 's \<Rightarrow> 's option" where
  "foldM f [] s = Some s"
| "foldM f (x # xs) s = (case f x s of None \<Rightarrow> None | Some s' \<Rightarrow> foldM f xs s')"

text \<open>
  \<open>Math.min(...xs)\<close> and \<open>Math.max(...xs)\<close>. With no argument JavaScript gives
  +Infinity and -Infinity, which \<open>real\<close> lacks: the equations cover the non-empty lists.
\<close>

fun Math_min :: "real list \<Rightarrow> real" where
  "Math_min (x # xs) = fold min xs x"

fun Math_max :: "real list \<Rightarrow> real" where
  "Math_max (x # xs) = fold max xs x"

record BBox =
  minX :: real
  minY :: real
  maxX :: real
  maxY :: real
  bw :: real
  bh :: real

definition bbox :: "point list \<Rightarrow> BBox" where
  "bbox points =
     (let xs = map fst points;
          ys = map snd points;
          minX = Math_min xs;
          maxX = Math_max xs;
          minY = Math_min ys;
          maxY = Math_max ys
      in \<lparr> minX = minX, minY = minY, maxX = maxX, maxY = maxY,
           bw = maxX - minX, bh = maxY - minY \<rparr>)"

text \<open>The callback of \<open>points.reduce\<close> in \<open>pathClosed\<close>, applied to index and element.\<close>

definition perimStep :: "point list \<Rightarrow> nat \<times> point \<Rightarrow> real \<Rightarrow> real option" where
  "perimStep points = (\<lambda>(i, p) acc.
     if i \<noteq> 0
     then do { q \<leftarrow> elemAt points (i - 1);
               Some (acc + hypot (fst p - fst q) (snd p - snd q)) }
     else Some (acc + 0))"

definition pathClosed :: "point list \<Rightarrow> bool option" where
  "pathClosed points =
     (if length points < 3 then Some False
      else do {
        (x0, y0) \<leftarrow> elemAt points 0;
        (xn, yn) \<leftarrow> elemAt points (length points - 1);
        perim \<leftarrow> foldM (perimStep points) (enumerate 0 points) 0;
        let closeThresh = max 10 (perim * 0.05);
        Some (hypot (x0 - xn) (y0 - yn) < closeThresh)
      })"

text \<open>\<open>ensureClosed\<close> with its default \<open>minClosePx = 8\<close>, as \<open>recognize\<close> calls it.\<close>

definition ensureClosed :: "point list \<Rightarrow> point list option" where
  "ensureClosed points =
     (if length points < 2 then Some points
      else do {
        (x0, y0) \<leftarrow> elemAt points 0;
        (xn, yn) \<leftarrow> elemAt points (length points - 1);
        if hypot (x0 - xn) (y0 - yn) \<le> 8 then Some points
        else Some (points @ [(x0, y0)])
      })"

subsection \<open>Perimeter, area and simplification\<close>

definition polygonPerimeter :: "point list \<Rightarrow> real option" where
  "polygonPerimeter points =
     foldM (\<lambda>i p. do {
              (xi, yi) \<leftarrow> elemAt points i;
              (xj, yj) \<leftarrow> elemAt points (i - 1);
              Some (p + hypot (xi - xj) (yi - yj)) })
           [1..<length points] 0"

text \<open>
  The loop \<open>for (i = 0, j = length - 1; i < length; j = i++)\<close>: the state is the sum
  and \<open>j\<close>, which is the previous \<open>i\<close> after each round.
\<close>

definition polygonArea :: "point list \<Rightarrow> real option" where
  "polygonArea points = do {
     (a, j) \<leftarrow> foldM (\<lambda>i (a, j). do {
                        (xi, yi) \<leftarrow> elemAt points i;
                        (xj, yj) \<leftarrow> elemAt points j;
                        Some (a + (xj * yi - xi * yj), i) })
                     [0..<length points] (0, length points - 1);
     Some (\<bar>a\<bar> / 2) }"

text \<open>
  The body shared by the loops of \<open>rdpDistance\<close> and \<open>rdp\<close>: \<open>num / den\<close> for the
  point \<open>(x, y)\<close> and the line through \<open>(sx, sy)\<close> and \<open>(ex, ey)\<close>.
\<close>

definition lineDist :: "real \<Rightarrow> real \<Rightarrow> real \<Rightarrow> real \<Rightarrow> point \<Rightarrow> real" where
  "lineDist sx sy ex ey = (\<lambda>(x, y).
     (let num = \<bar>(ey - sy) * x - (ex - sx) * y + ex * sy - ey * sx\<bar>;
          den = or1 (hypot (ey - sy) (ex - sx))
      in num / den))"

definition rdpDistance :: "point list \<Rightarrow> real option" where
  "rdpDistance points =
     (if length points < 3 then Some 0
      else do {
        (sx, sy) \<leftarrow> elemAt points 0;
        (ex, ey) \<leftarrow> elemAt points (length points - 1);
        foldM (\<lambda>i maxD. do {
                 p \<leftarrow> elemAt points i;
                 let d = lineDist sx sy ex ey p;
                 Some (if d > maxD then d else maxD) })
              [1..<length points - 1] 0
      })"

text \<open>
  The first loop of \<open>rdp\<close>: \<open>maxD\<close> and \<open>idx\<close> start at -1; \<open>idx\<close> is an \<open>int\<close>
  for that reason.
\<close>

definition rdpScan :: "point list \<Rightarrow> real \<Rightarrow> real \<Rightarrow> real \<Rightarrow> real \<Rightarrow> (real \<times> int) option" where
  "rdpScan points sx sy ex ey =
     foldM (\<lambda>i (maxD, idx). do {
              p \<leftarrow> elemAt points i;
              let d = lineDist sx sy ex ey p;
              Some (if d > maxD then (d, int i) else (maxD, idx)) })
           [1..<length points - 1] (-1, -1)"


text \<open>The index found by the scan is -1 or an interior index: the slices are shorter.\<close>

lemma foldM_invariant:
  "foldM f xs s = Some s' \<Longrightarrow> I s \<Longrightarrow>
   (\<And>x s t. x \<in> set xs \<Longrightarrow> I s \<Longrightarrow> f x s = Some t \<Longrightarrow> I t) \<Longrightarrow> I s'"
proof (induction xs arbitrary: s)
  case Nil
  then show ?case by simp
next
  case (Cons x xs)
  from Cons.prems(1) obtain t where t: "f x s = Some t" "foldM f xs t = Some s'"
    by (auto split: option.splits)
  have "I t" using Cons.prems(2) t(1) by (rule Cons.prems(3) [of x, simplified])
  then show ?case using Cons.IH [OF t(2)] Cons.prems(3) by (meson list.set_intros(2))
qed

lemma rdpScan_idx:
  assumes "rdpScan points sx sy ex ey = Some (m, i)"
  shows "i = -1 \<or> (1 \<le> i \<and> i + 1 < int (length points))"
proof -
  let ?I = "\<lambda>(m :: real, i :: int). i = -1 \<or> (1 \<le> i \<and> i + 1 < int (length points))"
  have "?I (m, i)"
    using assms unfolding rdpScan_def
  proof (rule foldM_invariant)
    show "?I (-1, -1)" by simp
  next
    fix x s t
    assume "x \<in> set [1..<length points - 1]" "?I s"
      "(case s of (maxD, idx) \<Rightarrow> do {
              p \<leftarrow> elemAt points x;
              let d = lineDist sx sy ex ey p;
              Some (if d > maxD then (d, int x) else (maxD, idx)) }) = Some t"
    then show "?I t"
      by (auto simp: Let_def split: prod.splits if_splits bind_splits)
  qed
  then show ?thesis by simp
qed

lemma rdp_slices_shorter:
  assumes "rdpScan points sx sy ex ey = Some (maxD, idx)" and "0 < idx"
  shows "length (take (nat (idx + 1)) points) < length points"
    and "length (drop (nat idx) points) < length points"
  using rdpScan_idx [OF assms(1)] assms(2) by auto

text \<open>
  \<open>points.slice(0, idx + 1)\<close> is \<open>take (idx + 1)\<close>, \<open>points.slice(idx)\<close> is \<open>drop idx\<close>
  (\<open>idx > 0\<close> there), \<open>left.slice(0, -1)\<close> is \<open>butlast left\<close>. The two array literals
  \<open>[points[0], points[points.length - 1]]\<close> read in range, as the length exceeds 2.
\<close>

function rdp :: "point list \<Rightarrow> real \<Rightarrow> point list option" where
  "rdp points epsilon =
     (if length points \<le> 2 then Some points
      else do {
        (sx, sy) \<leftarrow> elemAt points 0;
        (ex, ey) \<leftarrow> elemAt points (length points - 1);
        (maxD, idx) \<leftarrow> rdpScan points sx sy ex ey;
        dist \<leftarrow> rdpDistance points;
        if dist < epsilon then Some [points ! 0, points ! (length points - 1)]
        else if maxD > epsilon \<and> idx > 0 then do {
          left \<leftarrow> rdp (take (nat (idx + 1)) points) epsilon;
          right \<leftarrow> rdp (drop (nat idx) points) epsilon;
          Some (butlast left @ right) }
        else Some [points ! 0, points ! (length points - 1)]
      })"
  by pat_completeness auto
termination
proof (relation "measure (\<lambda>(points, epsilon). length points)", goal_cases)
  case 1
  show ?case by simp
next
  case (2 points epsilon a x y aa xa ya ab xb yb ac)
  then show ?case
    using rdp_slices_shorter [of points x y xa ya xb yb] by simp
next
  case (3 points epsilon a x y aa xa ya ab xb yb ac ad)
  then show ?case
    using rdp_slices_shorter [of points x y xa ya xb yb] by simp
qed


declare rdp.simps [simp del]

subsection \<open>Features\<close>

definition toDeg :: "real \<Rightarrow> real" where
  "toDeg rad = (rad * 180) / pi"

text \<open>One round of the loop of \<open>countCorners\<close>, with the default threshold of 35 degrees.\<close>

definition cornerStep :: "point list \<Rightarrow> nat \<Rightarrow> nat \<Rightarrow> nat option" where
  "cornerStep poly i corners = do {
     let n = int (length poly);
     (x0, y0) \<leftarrow> elemAt poly (nat ((int i - 1 + n) mod n));
     (x1, y1) \<leftarrow> elemAt poly i;
     (x2, y2) \<leftarrow> elemAt poly (nat ((int i + 1) mod n));
     let v1x = x0 - x1; let v1y = y0 - y1;
     let v2x = x2 - x1; let v2y = y2 - y1;
     let dot = v1x * v2x + v1y * v2y;
     let mag1 = or1 (hypot v1x v1y);
     let mag2 = or1 (hypot v2x v2y);
     let ang = arccos (max (- 1) (min 1 (dot / (mag1 * mag2))));
     let deg = toDeg ang;
     Some (if deg < 180 - 35 \<and> deg > 35 then corners + 1 else corners) }"

definition countCorners :: "point list \<Rightarrow> nat option" where
  "countCorners poly =
     (if length poly < 3 then Some 0
      else foldM (cornerStep poly) [0..<length poly] 0)"

record CircleFit =
  fit_cx :: real
  fit_cy :: real
  fit_r :: real
  fit_stdRel :: real

text \<open>The seven sums of the loop of \<open>fitCircle\<close>.\<close>

record Moments =
  Suu :: real
  Suv :: real
  Svv :: real
  Suuu :: real
  Suvv :: real
  Svvv :: real
  Suuv :: real

definition momentStep :: "real \<Rightarrow> real \<Rightarrow> point \<Rightarrow> Moments \<Rightarrow> Moments" where
  "momentStep meanX meanY = (\<lambda>(x, y) m.
     (let u = x - meanX;
          v = y - meanY
      in \<lparr> Suu = Suu m + u * u,
           Suv = Suv m + u * v,
           Svv = Svv m + v * v,
           Suuu = Suuu m + u * u * u,
           Suvv = Suvv m + u * v * v,
           Svvv = Svvv m + v * v * v,
           Suuv = Suuv m + u * u * v \<rparr>))"

definition fitMeanX :: "point list \<Rightarrow> real" where
  "fitMeanX points = fold (\<lambda>p s. s + fst p) points 0 / real (length points)"

definition fitMeanY :: "point list \<Rightarrow> real" where
  "fitMeanY points = fold (\<lambda>p s. s + snd p) points 0 / real (length points)"

definition fitMoments :: "point list \<Rightarrow> Moments" where
  "fitMoments points =
     fold (momentStep (fitMeanX points) (fitMeanY points)) points
       \<lparr> Suu = 0, Suv = 0, Svv = 0, Suuu = 0, Suvv = 0, Svvv = 0, Suuv = 0 \<rparr>"

text \<open>The denominator \<open>den\<close> of the normal equations.\<close>

definition fitDen :: "point list \<Rightarrow> real" where
  "fitDen points =
     (let m = fitMoments points in 2 * (Suu m * Svv m - Suv m * Suv m))"

text \<open>\<open>fitCircle\<close> reads no element by index: its \<open>None\<close> is the \<open>null\<close> it returns.\<close>

definition fitCircle :: "point list \<Rightarrow> CircleFit option" where
  "fitCircle points =
     (let n = real (length points) in
      if length points < 6 then None
      else
        let meanX = fitMeanX points;
            meanY = fitMeanY points;
            m = fitMoments points;
            den = fitDen points
        in if \<bar>den\<bar> < 1 / 10 ^ 6 then None
           else
             let uc = (Svv m * (Suuu m + Suvv m) - Suv m * (Svvv m + Suuv m)) / den;
                 vc = (Suu m * (Svvv m + Suuv m) - Suv m * (Suuu m + Suvv m)) / den;
                 cx = meanX + uc;
                 cy = meanY + vc;
                 rs = map (\<lambda>(x, y). hypot (x - cx) (y - cy)) points;
                 r = fold (\<lambda>v s. s + v) rs 0 / n;
                 variance = fold (\<lambda>v s. s + (v - r) * (v - r)) rs 0 / n;
                 stdRel = sqrt variance / or1 r
             in Some \<lparr> fit_cx = cx, fit_cy = cy, fit_r = r, fit_stdRel = stdRel \<rparr>)"

subsection \<open>Classifiers and arbitration\<close>

definition classifyRectangle ::
  "point list \<Rightarrow> point list \<Rightarrow> real \<Rightarrow> real \<Rightarrow> real \<Rightarrow> real \<Rightarrow> string \<Rightarrow> ShapeCandidate" where
  "classifyRectangle pts rawClosed P A w h color =
     (let areaBBox = w * h;
          rectangularity = A / max 1 areaBBox;
          circularity = (4 * pi * A) / (or1 P * or1 P);
          confidence0 = rectangularity * 0.8 + (1 - circularity) * 0.2;
          confidence = (if rectangularity < 0.6 \<or> circularity > 0.9 then 0 else confidence0);
          b = bbox rawClosed;
          aspect = w / or1 h
      in if \<bar>aspect - 1\<bar> < 0.2
         then (let cx = minX b + w / 2;
                   cy = minY b + h / 2;
                   s = min w h
               in \<lparr> shape = Rect (cx - s / 2) (cy - s / 2) s s color, confidence = confidence \<rparr>)
         else \<lparr> shape = Rect (minX b) (minY b) w h color, confidence = confidence \<rparr>)"

definition classifyCircle ::
  "point list \<Rightarrow> point list \<Rightarrow> real \<Rightarrow> real \<Rightarrow> real \<Rightarrow> real \<Rightarrow> bool \<Rightarrow> string \<Rightarrow> ShapeCandidate" where
  "classifyCircle pts rawClosed P A w h isClosed color =
     (if \<not> isClosed \<or> min w h < 10 then \<lparr> shape = Free pts color, confidence = 0 \<rparr>
      else
        let circularity = (4 * pi * A) / (or1 P * or1 P);
            confidence0 = circularity * 0.9;
            confidence = (if circularity < 0.75 then 0 else confidence0);
            b = bbox rawClosed;
            cx = minX b + w / 2;
            cy = minY b + h / 2;
            r = min w h / 2;
            fallback = \<lparr> shape = Circle cx cy r color, confidence = confidence \<rparr>
        in case fitCircle pts of
             None \<Rightarrow> fallback
           | Some fit \<Rightarrow>
               if fit_r fit > 6 \<and> fit_stdRel fit < 0.15
               then \<lparr> shape = Circle (fit_cx fit) (fit_cy fit) (fit_r fit) color,
                      confidence = confidence + 0.1 \<rparr>
               else fallback)"

text \<open>
  The innermost body of the triple loop of \<open>classifyTriangle\<close>, and the loop: the state
  is \<open>best\<close> and \<open>maxSum\<close>, from \<open>[]\<close> and -1.
\<close>

definition triStep ::
  "point list \<Rightarrow> nat \<Rightarrow> nat \<Rightarrow> nat \<Rightarrow> point list \<times> real \<Rightarrow> (point list \<times> real) option" where
  "triStep pts i j k = (\<lambda>(best, maxSum). do {
     (xi, yi) \<leftarrow> elemAt pts i;
     (xj, yj) \<leftarrow> elemAt pts j;
     (xk, yk) \<leftarrow> elemAt pts k;
     let s = hypot (xi - xj) (yi - yj) + hypot (xj - xk) (yj - yk) + hypot (xk - xi) (yk - yi);
     Some (if s > maxSum then ([(xi, yi), (xj, yj), (xk, yk)], s) else (best, maxSum)) })"

definition triSearch :: "point list \<Rightarrow> (point list \<times> real) option" where
  "triSearch pts =
     foldM (\<lambda>i. foldM (\<lambda>j. foldM (\<lambda>k. triStep pts i j k)
                                 [j + 1..<length pts])
                     [i + 1..<length pts])
           [0..<length pts] ([], - 1)"

definition classifyTriangle :: "point list \<Rightarrow> real \<Rightarrow> real \<Rightarrow> string \<Rightarrow> ShapeCandidate option" where
  "classifyTriangle pts P A color = do {
     corners \<leftarrow> countCorners pts;
     let circularity = (4 * pi * A) / (or1 P * or1 P);
     let confidence = (if corners \<ge> 3 \<and> corners \<le> 5 \<and> circularity < 0.85
                       then min 0.8 ((real corners - 2) * 0.2) + (1 - circularity) * 0.3
                       else 0);
     if confidence < 0.3 then Some \<lparr> shape = Free pts color, confidence = 0 \<rparr>
     else do {
       (best, maxSum) \<leftarrow> triSearch pts;
       Some (if length best = 3
             then \<lparr> shape = Triangle best color, confidence = confidence \<rparr>
             else \<lparr> shape = Free pts color, confidence = 0 \<rparr>) } }"

text \<open>
  \<open>Array.prototype.sort\<close> with a comparator is stable (ECMAScript 2019): an element goes
  before the first one it does not compare greater than, so equal elements keep their order.
\<close>

fun insertBy :: "('a \<Rightarrow> 'a \<Rightarrow> real) \<Rightarrow> 'a \<Rightarrow> 'a list \<Rightarrow> 'a list" where
  "insertBy cmp x [] = [x]"
| "insertBy cmp x (y # ys) = (if cmp x y \<le> 0 then x # y # ys else y # insertBy cmp x ys)"

definition sortBy :: "('a \<Rightarrow> 'a \<Rightarrow> real) \<Rightarrow> 'a list \<Rightarrow> 'a list" where
  "sortBy cmp xs = foldr (insertBy cmp) xs []"

text \<open>
  \<open>recognize\<close>. The array literal evaluates the three classifiers in order; only the
  triangle classifier can raise, so its bind comes after the two pure calls.
\<close>

definition recognize :: "point list \<Rightarrow> string \<Rightarrow> DrawnShape option" where
  "recognize pointsRaw color = do {
     rawClosed \<leftarrow> ensureClosed pointsRaw;
     let w = bw (bbox rawClosed);
     let h = bh (bbox rawClosed);
     let eps = max 3 (hypot w h * 0.01);
     pts \<leftarrow> rdp rawClosed eps;
     if length pts < 3 then Some (Free rawClosed color)
     else do {
       P \<leftarrow> polygonPerimeter pts;
       A \<leftarrow> polygonArea pts;
       isClosed \<leftarrow> pathClosed pointsRaw;
       let rect = classifyRectangle pts rawClosed P A w h color;
       let circ = classifyCircle pts rawClosed P A w h isClosed color;
       tri \<leftarrow> classifyTriangle pts P A color;
       let candidates = filter (\<lambda>c. confidence c > 0.4) [rect, circ, tri];
       if length candidates > 0
       then do {
         c \<leftarrow> elemAt (sortBy (\<lambda>a b. confidence b - confidence a) candidates) 0;
         Some (shape c) }
       else Some (Free pts color) } }"

subsection \<open>The specification's words\<close>

text \<open>The Euclidean distance of two points.\<close>

definition euclid :: "point \<Rightarrow> point \<Rightarrow> real" where
  "euclid p q = sqrt ((fst p - fst q)\<^sup>2 + (snd p - snd q)\<^sup>2)"

text \<open>The total traversed length of a polyline: the sum over its consecutive pairs.\<close>

fun traversed_length :: "point list \<Rightarrow> real" where
  "traversed_length (p # q # ps) = euclid p q + traversed_length (q # ps)"
| "traversed_length _ = 0"

text \<open>The sum of the pairwise distances of three points: the perimeter of their triangle.\<close>

definition pairwise_sum :: "point \<Rightarrow> point \<Rightarrow> point \<Rightarrow> real" where
  "pairwise_sum a b c = euclid a b + euclid b c + euclid c a"

text \<open>The average and the (population) standard deviation of a list of numbers.\<close>

definition average :: "real list \<Rightarrow> real" where
  "average xs = sum_list xs / real (length xs)"

definition std_dev :: "real list \<Rightarrow> real" where
  "std_dev xs = sqrt (average (map (\<lambda>x. (x - average xs)\<^sup>2) xs))"

text \<open>The invariants of the specification's Shape, per variant.\<close>

definition wellFormed :: "DrawnShape \<Rightarrow> bool" where
  "wellFormed s = (case s of
       Rect x y w h c \<Rightarrow> 0 < w \<and> 0 < h
     | Circle x y r c \<Rightarrow> 0 < r
     | Triangle ps c \<Rightarrow> True
     | Free ps c \<Rightarrow> 1 \<le> length ps)"

text \<open>Uniform scaling of a point and of a shape by the factor \<open>k\<close>.\<close>

definition scalePoint :: "real \<Rightarrow> point \<Rightarrow> point" where
  "scalePoint k = (\<lambda>(x, y). (k * x, k * y))"

fun scaleShape :: "real \<Rightarrow> DrawnShape \<Rightarrow> DrawnShape" where
  "scaleShape k (Rect x y w h c) = Rect (k * x) (k * y) (k * w) (k * h) c"
| "scaleShape k (Circle x y r c) = Circle (k * x) (k * y) (k * r) c"
| "scaleShape k (Triangle ps c) = Triangle (map (scalePoint k) ps) c"
| "scaleShape k (Free ps c) = Free (map (scalePoint k) ps) c"

subsection \<open>Notions used in the proofs\<close>

text \<open>The index triples in the order in which the triple loop of the triangle search visits them.\<close>

definition triples :: "nat \<Rightarrow> (nat \<times> nat \<times> nat) list" where
  "triples n =
     concat (map (\<lambda>i. map (Pair i)
       (concat (map (\<lambda>j. map (Pair j) [j + 1..<n]) [i + 1..<n]))) [0..<n])"

text \<open>
  The state after the triples \<open>seen\<close>: nothing yet, or the best triple so far and its sum.
\<close>

definition bestOf :: "point list \<Rightarrow> (nat \<times> nat \<times> nat) list \<Rightarrow> point list \<times> real \<Rightarrow> bool" where
  "bestOf pts seen = (\<lambda>(best, m).
     (seen = [] \<and> best = [] \<and> m = - 1) \<or>
     (\<exists>(i, j, k) \<in> set seen.
        best = [pts ! i, pts ! j, pts ! k] \<and> m = pairwise_sum (pts ! i) (pts ! j) (pts ! k) \<and>
        (\<forall>(i', j', k') \<in> set seen. pairwise_sum (pts ! i') (pts ! j') (pts ! k') \<le> m)))"






definition scaleCandidate :: "real \<Rightarrow> ShapeCandidate \<Rightarrow> ShapeCandidate" where
  "scaleCandidate k c = \<lparr> shape = scaleShape k (shape c), confidence = confidence c \<rparr>"



subsection \<open>The program's doubles\<close>

text \<open>
  The program computes in IEEE 754 doubles. A double is a real with a significand of 53
  bits, and every arithmetic operation returns the double nearest to the exact result,
  a tie going to the even significand: \<open>fl\<close> is that rounding. The exponent range is left
  out: none of the numbers met below overflows or is subnormal.
\<close>

definition rne :: "real \<Rightarrow> int" where
  "rne y = (let f = \<lfloor>y\<rfloor>;
                r = y - of_int f
            in if r < 1 / 2 then f
               else if 1 / 2 < r then f + 1
               else if even f then f else f + 1)"

definition binade :: "real \<Rightarrow> int" where
  "binade x = \<lfloor>log 2 \<bar>x\<bar>\<rfloor>"

definition fl :: "real \<Rightarrow> real" where
  "fl x = (if x = 0 then 0
           else of_int (rne (x / 2 powi (binade x - 52))) * 2 powi (binade x - 52))"





text \<open>
  The near-square test of \<open>classifyRectangle\<close> as the program computes it:
  \<open>Math.abs(W / (H || 1) - 1) < 0.2\<close>.
\<close>

definition nearSquareD :: "real \<Rightarrow> real \<Rightarrow> bool" where
  "nearSquareD W H = (\<bar>fl (fl (W / or1 H) - 1)\<bar> < fl 0.2)"

text \<open>
  Example strokes. \<open>slab\<close> is a 40 by 8 rectangle drawn from its top-left corner, the
  closing edge of length 8 left open; \<open>speck\<close> is the same stroke scaled by 1/16;
  \<open>unitSquare\<close> is the unit square; \<open>ring\<close> has four points at distance 1 and four at
  distance 2 from the origin; \<open>rail\<close> has six points of the line through (14, 39) of
  direction (4, 3); \<open>plot\<close> is an 800 by 600 rectangle with a closing gap of 5.
\<close>

abbreviation slab :: "point list" where
  "slab \<equiv> [(0, 0), (40, 0), (40, 8), (0, 8)]"


abbreviation unitSquare :: "point list" where
  "unitSquare \<equiv> [(0, 0), (1, 0), (1, 1), (0, 1)]"

abbreviation ring :: "point list" where
  "ring \<equiv> [(1, 0), (0, 1), (- 1, 0), (0, - 1), (2, 0), (0, 2), (- 2, 0), (0, - 2)]"



section \<open>Path closure\<close>

lemma hypot_euclid: "hypot (fst p - fst q) (snd p - snd q) = euclid p q"
  by (simp add: hypot_def euclid_def power2_eq_square)

lemma euclid_commute: "euclid p q = euclid q p"
  by (simp add: euclid_def power2_commute)

lemma elemAt_in_range [simp]: "i < length xs \<Longrightarrow> elemAt xs i = Some (xs ! i)"
  by (simp add: elemAt_def)

lemma perim_loop:
  "pre \<noteq> [] \<Longrightarrow>
   foldM (perimStep (pre @ suf)) (enumerate (length pre) suf) acc
     = Some (acc + traversed_length (last pre # suf))"
proof (induction suf arbitrary: pre acc)
  case Nil
  then show ?case by simp
next
  case (Cons x suf)
  have prev: "elemAt (pre @ x # suf) (length pre - 1) = Some (last pre)"
    using Cons.prems by (simp add: elemAt_def nth_append last_conv_nth)
  have step: "perimStep (pre @ x # suf) (length pre, x) acc = Some (acc + euclid (last pre) x)"
    using Cons.prems prev
    by (simp add: perimStep_def hypot_euclid euclid_commute)
  have "foldM (perimStep ((pre @ [x]) @ suf)) (enumerate (length (pre @ [x])) suf)
          (acc + euclid (last pre) x)
        = Some (acc + euclid (last pre) x + traversed_length (last (pre @ [x]) # suf))"
    by (rule Cons.IH) simp
  then show ?case
    using step by simp
qed

lemma perim_reduce:
  "foldM (perimStep points) (enumerate 0 points) 0 = Some (traversed_length points)"
proof (cases points)
  case Nil
  then show ?thesis by simp
next
  case (Cons p ps)
  have "foldM (perimStep ([p] @ ps)) (enumerate (length [p]) ps) 0
          = Some (0 + traversed_length (last [p] # ps))"
    by (rule perim_loop) simp
  then show ?thesis
    using Cons by (simp add: perimStep_def)
qed

lemma pathClosed_char:
  "pathClosed points =
     Some (3 \<le> length points \<and>
           euclid (hd points) (last points) < max 10 (0.05 * traversed_length points))"
proof (cases "length points < 3")
  case True
  then show ?thesis by (simp add: pathClosed_def)
next
  case False
  then have ne: "points \<noteq> []" by auto
  have first: "elemAt points 0 = Some (hd points)"
    using ne by (simp add: elemAt_def hd_conv_nth)
  have final: "elemAt points (length points - 1) = Some (last points)"
    using ne by (simp add: elemAt_def last_conv_nth)
  show ?thesis
    using False first final
    by (simp add: pathClosed_def perim_reduce hypot_euclid split_beta mult.commute)
qed

text \<open>
  Claim C4. \<open>pathClosed\<close> raises nothing and answers true exactly when the sequence has
  at least 3 points and the Euclidean distance between its first and last point is
  strictly below the larger of 10 and 5 percent of the total traversed length.
\<close>

theorem pathClosed_iff:
  "pathClosed points =
     Some (3 \<le> length points \<and>
           euclid (hd points) (last points) < max 10 (0.05 * traversed_length points))"
  by (rule pathClosed_char)

section \<open>Simplification\<close>

lemma foldM_total:
  "(\<And>x s. x \<in> set xs \<Longrightarrow> \<exists>t. f x s = Some t) \<Longrightarrow> \<exists>s'. foldM f xs s = Some s'"
proof (induction xs arbitrary: s)
  case Nil
  then show ?case by simp
next
  case (Cons x xs)
  obtain t where t: "f x s = Some t" using Cons.prems [of x s] by auto
  have "\<exists>s'. foldM f xs t = Some s'"
    by (rule Cons.IH) (simp add: Cons.prems)
  then show ?case using t by simp
qed

lemma rdpScan_total: "\<exists>m i. rdpScan points sx sy ex ey = Some (m, i)"
proof -
  have "\<exists>s'. rdpScan points sx sy ex ey = Some s'"
    unfolding rdpScan_def
    by (rule foldM_total) (auto simp: Let_def split: prod.splits)
  then show ?thesis by auto
qed

lemma rdpDistance_total: "\<exists>d. rdpDistance points = Some d"
proof (cases "length points < 3")
  case True
  then show ?thesis by (simp add: rdpDistance_def)
next
  case False
  have "\<exists>d. foldM (\<lambda>i maxD. do {
                 p \<leftarrow> elemAt points i;
                 let d = lineDist sx sy ex ey p;
                 Some (if d > maxD then d else maxD) })
              [1..<length points - 1] 0 = Some d" for sx sy ex ey
    by (rule foldM_total) (auto simp: Let_def)
  moreover have "elemAt points 0 = Some (points ! 0)"
    using False by (auto simp: elemAt_def)
  ultimately show ?thesis
    using False by (simp add: rdpDistance_def split_beta)
qed

lemma ends_subseq: "2 \<le> length xs \<Longrightarrow> subseq [xs ! 0, xs ! (length xs - 1)] xs"
proof -
  assume len: "2 \<le> length xs"
  then obtain a ys where xs: "xs = a # ys" and ys: "ys \<noteq> []"
    by (cases xs) (auto simp: Suc_le_eq)
  have "subseq [last ys] ys"
    using ys by (metis append_butlast_last_id list_emb_append2 subseq_order.order_refl)
  then show ?thesis
    using xs ys by (simp add: last_conv_nth)
qed


lemma rdp_props:
  "\<exists>qs. rdp points epsilon = Some qs \<and> subseq qs points \<and>
        (2 \<le> length points \<longrightarrow> 2 \<le> length qs \<and> qs ! 0 = points ! 0 \<and> last qs = last points)"
proof (induction points epsilon rule: rdp.induct)
  case (1 points epsilon)
  show ?case
  proof (cases "length points \<le> 2")
    case True
    then have "rdp points epsilon = Some points"
      by (subst rdp.simps) simp
    then show ?thesis by simp
  next
    case False
    let ?n = "length points"
    obtain sx sy where s: "points ! 0 = (sx, sy)" by (cases "points ! 0")
    obtain ex ey where e: "points ! (?n - 1) = (ex, ey)" by (cases "points ! (?n - 1)")
    have first: "elemAt points 0 = Some (sx, sy)"
      using False s by (auto simp: elemAt_def)
    have final: "elemAt points (?n - 1) = Some (ex, ey)"
      using False e by (auto simp: elemAt_def)
    obtain m i where scan: "rdpScan points sx sy ex ey = Some (m, i)"
      using rdpScan_total by blast
    obtain d where dist: "rdpDistance points = Some d"
      using rdpDistance_total by blast
    have unfold: "rdp points epsilon =
        (if d < epsilon then Some [points ! 0, points ! (?n - 1)]
         else if m > epsilon \<and> i > 0 then do {
           left \<leftarrow> rdp (take (nat (i + 1)) points) epsilon;
           right \<leftarrow> rdp (drop (nat i) points) epsilon;
           Some (butlast left @ right) }
         else Some [points ! 0, points ! (?n - 1)])"
      using False first final scan dist by (subst rdp.simps) simp
    have lastp: "last points = points ! (?n - 1)"
      using False by (cases points) (auto simp: last_conv_nth)
    have ends: "\<exists>qs. Some [points ! 0, points ! (?n - 1)] = Some qs \<and> subseq qs points \<and>
        (2 \<le> length points \<longrightarrow> 2 \<le> length qs \<and> qs ! 0 = points ! 0 \<and> last qs = last points)"
      using False lastp ends_subseq [of points] by simp
    show ?thesis
    proof (cases "\<not> d < epsilon \<and> m > epsilon \<and> i > 0")
      case False
      then show ?thesis using unfold ends by auto
    next
      case True
      then have nd: "\<not> d < epsilon" and split: "epsilon < m \<and> 0 < i" by auto
      have irange: "1 \<le> i \<and> i + 1 < int ?n"
        using rdpScan_idx [OF scan] split by auto
      define k where "k = nat i"
      have k: "1 \<le> k" "k + 1 < ?n" "nat (i + 1) = Suc k"
        using irange by (auto simp: k_def)
      have lastk: "last (take (Suc k) points) = points ! k"
        using k by (simp add: take_Suc_conv_app_nth)
      have lenk: "2 \<le> length (take (Suc k) points)" "2 \<le> length (drop k points)"
        using k by auto
      from "1.IH"(1) [OF \<open>\<not> length points \<le> 2\<close> first refl final refl scan refl dist nd split]
      obtain left where left: "rdp (take (Suc k) points) epsilon = Some left"
          "subseq left (take (Suc k) points)" "2 \<le> length left"
          "left ! 0 = points ! 0" "last left = points ! k"
        using k(3) lastk lenk(1) by auto
      from "1.IH"(2) [OF \<open>\<not> length points \<le> 2\<close> first refl final refl scan refl dist nd split]
        left(1) k(3)
      obtain right where right: "rdp (drop k points) epsilon = Some right"
          "subseq right (drop k points)" "2 \<le> length right"
          "right ! 0 = points ! k" "last right = last points"
        using lenk(2) k(1,2) by (auto simp: k_def)
      have res: "rdp points epsilon = Some (butlast left @ right)"
        using unfold nd split left(1) right(1) k by (simp add: k_def)
      have rne: "right \<noteq> []" and lne: "left \<noteq> []" using right(3) left(3) by auto
      have right_eq: "right = points ! k # tl right"
        using rne right(4) by (cases right) auto
      have dropk: "drop k points = points ! k # drop (Suc k) points"
        using k by (simp add: Cons_nth_drop_Suc)
      have "subseq (tl right) (drop (Suc k) points)"
        using right(2) right_eq dropk by (metis subseq_Cons2_iff)
      then have "subseq (left @ tl right) (take (Suc k) points @ drop (Suc k) points)"
        using left(2) by (rule list_emb_append_mono [rotated])
      moreover have "left @ tl right = butlast left @ right"
        using lne left(5) right_eq
        by (metis append.assoc append_Cons append_Nil append_butlast_last_id)
      ultimately have sub: "subseq (butlast left @ right) points" by simp
      have bl: "butlast left \<noteq> []" using left(3)
        by (cases left rule: rev_cases) auto
      have h0: "(butlast left @ right) ! 0 = points ! 0"
        using left(3,4) by (simp add: nth_append nth_butlast)
      have "last (butlast left @ right) = last points"
        using rne right(5) by simp
      moreover have "2 \<le> length (butlast left @ right)"
        using right(3) by simp
      ultimately show ?thesis using res sub h0 by simp
    qed
  qed
qed

text \<open>
  Claim C5, amended. For every point sequence and every epsilon, \<open>rdp\<close> raises nothing
  and returns a subsequence of its input (the retained vertices, in order); an input of at
  most 2 points is returned unchanged; for an input of at least 2 points the result has
  at least 2 points and keeps the original first and last point.
\<close>

theorem rdp_retains:
  "\<exists>qs. rdp points epsilon = Some qs \<and> subseq qs points \<and>
        (length points \<le> 2 \<longrightarrow> qs = points) \<and>
        (2 \<le> length points \<longrightarrow> 2 \<le> length qs \<and> hd qs = hd points \<and> last qs = last points)"
proof -
  obtain qs where qs: "rdp points epsilon = Some qs" "subseq qs points"
      "2 \<le> length points \<longrightarrow> 2 \<le> length qs \<and> qs ! 0 = points ! 0 \<and> last qs = last points"
    using rdp_props [of points epsilon] by blast
  have short: "length points \<le> 2 \<longrightarrow> qs = points"
    using qs(1) by (subst (asm) rdp.simps) auto
  have "2 \<le> length points \<longrightarrow> hd qs = hd points"
    using qs(3) by (cases qs; cases points) auto
  then show ?thesis using qs short by blast
qed

theorem rdp_retains_witness:
  "2 \<le> length [(0::real, 0::real), (3, 4)] \<and>
   rdp [(0, 0), (3, 4)] 1 = Some [(0, 0), (3, 4)]"
  using rdp_retains [of "[(0, 0), (3, 4)]" 1] by simp

text \<open>
  The claim as stated promises length at least 2 for every input: a one-point input is
  returned unchanged, with length 1.
\<close>

theorem rdp_single_point_counterexample:
  "rdp [(0, 0)] 1 = Some [(0, 0)] \<and> \<not> 2 \<le> length [(0::real, 0::real)]"
  by (subst rdp.simps) simp

section \<open>No read is out of range\<close>

lemma foldM_total_inv:
  "I s \<Longrightarrow> (\<And>x s. x \<in> set xs \<Longrightarrow> I s \<Longrightarrow> \<exists>t. f x s = Some t \<and> I t) \<Longrightarrow>
   \<exists>s'. foldM f xs s = Some s' \<and> I s'"
proof (induction xs arbitrary: s)
  case Nil
  then show ?case by simp
next
  case (Cons x xs)
  obtain t where t: "f x s = Some t" "I t" using Cons.prems(2) [of x s] Cons.prems(1) by auto
  have "\<exists>s'. foldM f xs t = Some s' \<and> I s'"
    by (rule Cons.IH [OF t(2)]) (simp add: Cons.prems(2))
  then show ?case using t by simp
qed

lemma ensureClosed_cases:
  "ensureClosed ps = Some ps \<or> (2 \<le> length ps \<and> ensureClosed ps = Some (ps @ [ps ! 0]))"
proof (cases "length ps < 2")
  case True
  then show ?thesis by (simp add: ensureClosed_def)
next
  case False
  then have "elemAt ps 0 = Some (ps ! 0)" "elemAt ps (length ps - 1) = Some (ps ! (length ps - 1))"
    by (auto simp: elemAt_def)
  then show ?thesis
    using False by (auto simp: ensureClosed_def split_beta)
qed

lemma polygonPerimeter_total: "\<exists>P. polygonPerimeter pts = Some P"
  unfolding polygonPerimeter_def
  by (rule foldM_total) (auto simp: elemAt_def split_beta)

lemma polygonArea_total: "\<exists>A. polygonArea pts = Some A"
proof -
  let ?f = "\<lambda>i (a, j). do {
                        (xi, yi) \<leftarrow> elemAt pts i;
                        (xj, yj) \<leftarrow> elemAt pts j;
                        Some (a + (xj * yi - xi * yj), i) }"
  have "\<exists>s'. foldM ?f [0..<length pts] (0, length pts - 1) = Some s'
           \<and> (case s' of (a :: real, j) \<Rightarrow> pts = [] \<or> j < length pts)"
  proof (rule foldM_total_inv)
    show "case (0 :: real, length pts - 1) of (a, j) \<Rightarrow> pts = [] \<or> j < length pts"
      by (cases pts) auto
  qed (auto simp: elemAt_def split_beta)
  then obtain a j where "foldM ?f [0..<length pts] (0, length pts - 1) = Some (a, j)"
    by auto
  then have "polygonArea pts = Some (\<bar>a\<bar> / 2)"
    by (simp add: polygonArea_def)
  then show ?thesis ..
qed

lemma cornerStep_total: "i < length poly \<Longrightarrow> \<exists>t. cornerStep poly i c = Some t"
proof -
  assume i: "i < length poly"
  let ?n = "int (length poly)"
  have n: "0 < ?n" using i by auto
  have "nat ((int i - 1 + ?n) mod ?n) < length poly" "nat ((int i + 1) mod ?n) < length poly"
    using n by (simp_all add: nat_less_iff)
  then show ?thesis
    using i by (simp add: cornerStep_def elemAt_def split_beta Let_def)
qed

lemma countCorners_total: "\<exists>c. countCorners poly = Some c"
proof (cases "length poly < 3")
  case True
  then show ?thesis by (simp add: countCorners_def)
next
  case False
  have "\<exists>c. foldM (cornerStep poly) [0..<length poly] 0 = Some c"
    by (rule foldM_total) (simp add: cornerStep_total)
  then show ?thesis using False by (simp add: countCorners_def)
qed

lemma triStep_total:
  "i < length pts \<Longrightarrow> j < length pts \<Longrightarrow> k < length pts \<Longrightarrow> \<exists>t. triStep pts i j k s = Some t"
  by (cases s) (simp add: triStep_def elemAt_def split_beta Let_def)

lemma triSearch_total: "\<exists>best maxSum. triSearch pts = Some (best, maxSum)"
proof -
  have "\<exists>s'. triSearch pts = Some s'"
    unfolding triSearch_def
    by (intro foldM_total) (auto simp: triStep_def elemAt_def split_beta Let_def)
  then show ?thesis by auto
qed

lemma classifyTriangle_total: "\<exists>c. classifyTriangle pts P A color = Some c"
proof -
  obtain n where "countCorners pts = Some n" using countCorners_total by blast
  moreover obtain best maxSum where "triSearch pts = Some (best, maxSum)"
    using triSearch_total by blast
  ultimately show ?thesis
    by (simp add: classifyTriangle_def Let_def)
qed

section \<open>Arbitration\<close>

lemma length_insertBy [simp]: "length (insertBy cmp x ys) = Suc (length ys)"
  by (induction ys) auto

lemma length_sortBy [simp]: "length (sortBy cmp xs) = length xs"
  by (induction xs) (auto simp: sortBy_def)

lemma hd_insertBy:
  "hd (insertBy (\<lambda>a b. confidence b - confidence a) x ys) =
     (if ys = [] \<or> confidence (hd ys) \<le> confidence x then x else hd ys)"
  by (cases ys) auto

lemma sortBy_Cons: "sortBy cmp (x # xs) = insertBy cmp x (sortBy cmp xs)"
  by (simp add: sortBy_def)

lemma sortBy_Nil_iff [simp]: "sortBy cmp xs = [] \<longleftrightarrow> xs = []"
  by (metis length_sortBy length_0_conv)

text \<open>The head of the sorted list is the first element of greatest confidence.\<close>

lemma hd_sortBy_confidence:
  "xs \<noteq> [] \<Longrightarrow>
   \<exists>i < length xs. hd (sortBy (\<lambda>a b. confidence b - confidence a) xs) = xs ! i \<and>
     (\<forall>j < length xs. confidence (xs ! j) \<le> confidence (xs ! i)) \<and>
     (\<forall>j < i. confidence (xs ! j) < confidence (xs ! i))"
proof (induction xs)
  case Nil
  then show ?case by simp
next
  case (Cons x xs)
  let ?cmp = "\<lambda>a b. confidence b - confidence a"
  show ?case
  proof (cases "xs = []")
    case True
    then show ?thesis by (simp add: sortBy_def)
  next
    case False
    from Cons.IH [OF False] obtain i where i: "i < length xs"
        "hd (sortBy ?cmp xs) = xs ! i"
        "\<forall>j < length xs. confidence (xs ! j) \<le> confidence (xs ! i)"
        "\<forall>j < i. confidence (xs ! j) < confidence (xs ! i)"
      by blast
    have hd: "hd (sortBy ?cmp (x # xs)) =
        (if confidence (xs ! i) \<le> confidence x then x else xs ! i)"
      using False i(2) by (simp add: sortBy_Cons hd_insertBy)
    show ?thesis
    proof (cases "confidence (xs ! i) \<le> confidence x")
      case True
      have "\<forall>j < length (x # xs). confidence ((x # xs) ! j) \<le> confidence x"
        using True i(3) by (auto simp: nth_Cons split: nat.splits intro: order_trans)
      then show ?thesis
        using hd True by (intro exI [of _ 0]) simp
    next
      case False
      have a: "\<forall>j < length (x # xs). confidence ((x # xs) ! j) \<le> confidence (xs ! i)"
        using False i(3) by (auto simp: nth_Cons split: nat.splits)
      have b: "\<forall>j < Suc i. confidence ((x # xs) ! j) < confidence (xs ! i)"
        using False i(4) by (auto simp: nth_Cons split: nat.splits)
      show ?thesis
        using hd False a b i(1) by (intro exI [of _ "Suc i"]) simp
    qed
  qed
qed

lemma recognize_short:
  assumes "ensureClosed pointsRaw = Some rawClosed"
    and "rdp rawClosed (max 3 (hypot (bw (bbox rawClosed)) (bh (bbox rawClosed)) * 0.01)) = Some pts"
    and "length pts < 3"
  shows "recognize pointsRaw color = Some (Free rawClosed color)"
  using assms by (simp add: recognize_def Let_def)

lemma recognize_classified:
  assumes "ensureClosed pointsRaw = Some rawClosed"
    and "w = bw (bbox rawClosed)" and "h = bh (bbox rawClosed)"
    and "rdp rawClosed (max 3 (hypot w h * 0.01)) = Some pts"
    and "3 \<le> length pts"
    and "polygonPerimeter pts = Some P" and "polygonArea pts = Some A"
    and "pathClosed pointsRaw = Some isClosed"
    and "rect = classifyRectangle pts rawClosed P A w h color"
    and "circ = classifyCircle pts rawClosed P A w h isClosed color"
    and "classifyTriangle pts P A color = Some tri"
    and "survivors = filter (\<lambda>c. confidence c > 0.4) [rect, circ, tri]"
  shows "recognize pointsRaw color =
     (if survivors = [] then Some (Free pts color)
      else Some (shape (hd (sortBy (\<lambda>a b. confidence b - confidence a) survivors))))"
proof -
  have "elemAt (sortBy (\<lambda>a b. confidence b - confidence a) survivors) 0
      = Some (hd (sortBy (\<lambda>a b. confidence b - confidence a) survivors))" if "survivors \<noteq> []"
    using that by (simp add: elemAt_def hd_conv_nth)
  then show ?thesis
    using assms(1-11) unfolding recognize_def Let_def assms(12)
    by (simp del: filter.simps)
qed

lemma recognize_total_aux: "\<exists>s. recognize pointsRaw color = Some s"
proof -
  obtain rawClosed where rc: "ensureClosed pointsRaw = Some rawClosed"
    using ensureClosed_cases by blast
  define w where w: "w = bw (bbox rawClosed)"
  define h where h: "h = bh (bbox rawClosed)"
  obtain pts where pts: "rdp rawClosed (max 3 (hypot w h * 0.01)) = Some pts"
    using rdp_props by blast
  show ?thesis
  proof (cases "length pts < 3")
    case True
    then show ?thesis using recognize_short [OF rc] pts w h by simp
  next
    case False
    obtain P where P: "polygonPerimeter pts = Some P" using polygonPerimeter_total by blast
    obtain A where A: "polygonArea pts = Some A" using polygonArea_total by blast
    obtain isClosed where c: "pathClosed pointsRaw = Some isClosed" using pathClosed_char by blast
    obtain tri where tri: "classifyTriangle pts P A color = Some tri"
      using classifyTriangle_total by blast
    show ?thesis
      using recognize_classified [OF rc w h pts _ P A c refl refl tri refl] False
      by (simp del: filter.simps)
  qed
qed

section \<open>Two strokes, evaluated\<close>

lemma hypot_le_sum: "hypot a b \<le> \<bar>a\<bar> + \<bar>b\<bar>"
  unfolding hypot_def using sqrt_sum_squares_le_sum_abs [of a b]
  by (simp add: power2_eq_square)

lemma hypot_nonneg [simp]: "0 \<le> hypot a b"
  by (simp add: hypot_def)

lemma hypot_axis [simp]: "hypot a 0 = \<bar>a\<bar>" "hypot 0 b = \<bar>b\<bar>"
  by (simp_all add: hypot_def)

lemma slab_closed: "ensureClosed slab = Some slab"
  by (simp add: ensureClosed_def elemAt_def)

lemma slab_bbox: "bbox slab = \<lparr> minX = 0, minY = 0, maxX = 40, maxY = 8, bw = 40, bh = 8 \<rparr>"
  by (simp add: bbox_def)

lemma slab_eps: "max 3 (hypot 40 8 * 0.01) = 3"
  using hypot_le_sum [of 40 8] by simp

lemma upt_3: "[Suc 0..<3] = [1, 2]" "[Suc 0..<2] = [1]" "[0..<4] = [0,1,2,3]" "[Suc 0..<4] = [1,2,3]"
  by (simp_all add: upt_rec)

lemma slab_scan: "rdpScan slab 0 0 0 8 = Some (40, 1)"
  by (simp add: rdpScan_def elemAt_def lineDist_def or1_def upt_3)

lemma slab_dist: "rdpDistance slab = Some 40"
  by (simp add: rdpDistance_def elemAt_def lineDist_def or1_def upt_3)

lemma slab_far: "lineDist 40 0 0 8 (40, 8) > 3"
proof -
  have "hypot 8 (- 40) \<le> 48" using hypot_le_sum [of 8 "-40"] by simp
  moreover have "hypot 8 (- 40) > 0" by (simp add: hypot_def)
  ultimately have "3 * hypot 8 (- 40) < 320" by simp
  then have "3 < 320 / hypot 8 (- 40)"
    using \<open>hypot 8 (- 40) > 0\<close> by (simp add: pos_less_divide_eq)
  moreover have "or1 (hypot 8 (- 40)) = hypot 8 (- 40)"
    using \<open>hypot 8 (- 40) > 0\<close> by (simp add: or1_def)
  ultimately show ?thesis by (simp add: lineDist_def)
qed

lemma slab_tail: "rdp [(40, 0), (40, 8), (0, 8)] 3 = Some [(40, 0), (40, 8), (0, 8)]"
proof -
  define d where "d = lineDist 40 0 0 8 (40, 8)"
  have d: "d > 3" using slab_far by (simp add: d_def)
  have scan: "rdpScan [(40, 0), (40, 8), (0, 8)] 40 0 0 8 = Some (d, 1)"
    using d by (simp add: rdpScan_def elemAt_def upt_3 d_def [symmetric])
  have dist: "rdpDistance [(40, 0), (40, 8), (0, 8)] = Some d"
    using d by (simp add: rdpDistance_def elemAt_def upt_3 d_def [symmetric])
  have two: "rdp [a, b] 3 = Some [a, b]" for a b :: point
    by (subst rdp.simps) simp
  show ?thesis
    using d by (subst rdp.simps) (simp add: scan dist elemAt_def two)
qed

lemma slab_rdp: "rdp slab 3 = Some slab"
proof -
  have two: "rdp [a, b] 3 = Some [a, b]" for a b :: point
    by (subst rdp.simps) simp
  show ?thesis
    by (subst rdp.simps) (simp add: slab_scan slab_dist elemAt_def two slab_tail)
qed

lemma slab_perimeter: "polygonPerimeter slab = Some 88"
  by (simp add: polygonPerimeter_def elemAt_def upt_3)

lemma slab_area: "polygonArea slab = Some 320"
  by (simp add: polygonArea_def elemAt_def upt_3)

lemma slab_pathClosed: "pathClosed slab = Some True"
  by (simp add: pathClosed_char euclid_def)

lemma classifyTriangle_confidence:
  assumes "classifyTriangle pts P A color = Some c"
  shows "confidence c = 0 \<or>
         confidence c \<le> 0.6 + (1 - (4 * pi * A) / (or1 P * or1 P)) * 0.3"
proof -
  obtain n where n: "countCorners pts = Some n" using countCorners_total by blast
  obtain best maxSum where t: "triSearch pts = Some (best, maxSum)"
    using triSearch_total by blast
  have "min 0.8 ((real n - 2) * 0.2) \<le> (0.6 :: real)" if "n \<le> 5"
    using that by (simp add: min_def)
  then show ?thesis
    using assms n t
    by (auto simp: classifyTriangle_def Let_def split: if_splits)
qed

lemma slab_rect:
  "classifyRectangle slab slab 88 320 40 8 color =
     \<lparr> shape = Rect 0 0 40 8 color, confidence = 1 - 4 * pi / 121 \<rparr>"
  using pi_less_4 pi_ge_two
  by (simp add: classifyRectangle_def Let_def or1_def slab_bbox) (simp add: field_simps)

lemma slab_circle:
  "classifyCircle slab slab 88 320 40 8 True color = \<lparr> shape = Free slab color, confidence = 0 \<rparr>"
  by (simp add: classifyCircle_def)

lemma slab_recognize: "recognize slab color = Some (Rect 0 0 40 8 color)"
proof -
  obtain tri where tri: "classifyTriangle slab 88 320 color = Some tri"
    using classifyTriangle_total by blast
  define rect where "rect = classifyRectangle slab slab 88 320 40 8 color"
  have rconf: "confidence rect = 1 - 4 * pi / 121"
    and rshape: "shape rect = Rect 0 0 40 8 color"
    by (simp_all add: rect_def slab_rect)
  have "confidence tri = 0 \<or> confidence tri \<le> 9 / 10 - 6 * pi / 121"
    using classifyTriangle_confidence [OF tri] by (simp add: or1_def field_simps)
  then have tconf: "confidence tri < confidence rect"
    unfolding rconf using pi_less_4 pi_ge_two by linarith
  have rsurv: "confidence rect > 0.4"
    using pi_less_4 by (simp add: rconf)
  have w: "40 = bw (bbox slab)" and h: "8 = bh (bbox slab)" by (simp_all add: slab_bbox)
  have "recognize slab color =
     (if filter (\<lambda>c. confidence c > 0.4)
           [rect, classifyCircle slab slab 88 320 40 8 True color, tri] = []
      then Some (Free slab color)
      else Some (shape (hd (sortBy (\<lambda>a b. confidence b - confidence a)
           (filter (\<lambda>c. confidence c > 0.4)
              [rect, classifyCircle slab slab 88 320 40 8 True color, tri])))))"
    by (rule recognize_classified [OF slab_closed w h _ _ slab_perimeter slab_area
          slab_pathClosed rect_def refl tri refl])
       (insert slab_eps slab_rdp, simp_all)
  then show ?thesis
    using tconf rsurv rshape by (simp add: slab_circle sortBy_def)
qed


section \<open>The claims about recognize\<close>

text \<open>
  The guards of the divisors (\<open>v || 1\<close>, \<open>Math.max(1, x)\<close>, the length and the denominator
  tests of \<open>fitCircle\<close>) leave no divisor 0.
\<close>

lemma guarded_divisors:
  "or1 v \<noteq> 0" "max 1 x \<noteq> (0 :: real)" "or1 P * or1 P \<noteq> 0"
  "\<not> length points < 6 \<Longrightarrow> real (length points) \<noteq> 0"
  "\<not> \<bar>den\<bar> < 1 / 10 ^ 6 \<Longrightarrow> den \<noteq> (0 :: real)"
  by (auto simp: or1_def max_def)

text \<open>
  Totality, within the engine's limits. For every non-empty stroke and every style value
  the model of \<open>recognize\<close> returns a shape: no read is out of range. The model of \<open>rdp\<close>
  returns on every input and epsilon; it is a total function, and its termination proof
  is that each recursive call gets a strictly shorter slice (\<open>rdp_slices_shorter\<close>).

  This does not carry over to the program on every stroke. On a stroke of more points
  than the engine accepts as arguments of one call, \<open>Math.min(...xs)\<close> in \<open>bbox\<close> raises a
  RangeError, the first thing \<open>recognize\<close> does after closing the stroke; and \<open>rdp\<close>, whose
  recursion is as deep as the number of vertices it keeps in the worst case, can exhaust
  the call stack. Claim C2, which says that no exception is raised for any non-empty
  stroke, is therefore not a theorem about the program, and none is stated for it.
\<close>

lemma recognize_total:
  assumes "pointsRaw \<noteq> []"
  shows "(\<exists>s. recognize pointsRaw color = Some s) \<and>
         (\<forall>epsilon. \<exists>qs. rdp pointsRaw epsilon = Some qs)"
  using recognize_total_aux [of pointsRaw color] rdp_props [of pointsRaw] by blast

lemma recognize_total_witness:
  "slab \<noteq> [] \<and> recognize slab ''red'' \<noteq> None \<and> rdp slab 3 \<noteq> None"
  using recognize_total [of slab "''red''"] by auto

text \<open>
  Claim C3. When the closed stroke has fewer than 3 points, \<open>recognize\<close> returns the
  Freeform shape over that closed path, whatever the classifiers would say, and every
  point of the output is a point of the input: no new number, so no NaN, is produced.
\<close>

theorem recognize_too_few_points:
  assumes "ensureClosed pointsRaw = Some rawClosed" and "length rawClosed < 3"
  shows "recognize pointsRaw color = Some (Free rawClosed color) \<and>
         set rawClosed \<subseteq> set pointsRaw"
proof -
  have "rdp rawClosed eps = Some rawClosed" for eps
    using assms(2) by (subst rdp.simps) simp
  then have "recognize pointsRaw color = Some (Free rawClosed color)"
    using assms by (intro recognize_short [of _ _ rawClosed]) simp_all
  moreover have "pointsRaw ! 0 \<in> set pointsRaw" if "2 \<le> length pointsRaw"
    using that by (cases pointsRaw) auto
  then have "set rawClosed \<subseteq> set pointsRaw"
    using ensureClosed_cases [of pointsRaw] assms(1) by auto
  ultimately show ?thesis ..
qed

theorem recognize_too_few_points_witness:
  "ensureClosed [(1, 2), (1, 2)] = Some [(1, 2), (1, 2)] \<and>
   length [(1 :: real, 2 :: real), (1, 2)] < 3 \<and>
   recognize [(1, 2), (1, 2)] ''red'' = Some (Free [(1, 2), (1, 2)] ''red'')"
proof -
  have c: "ensureClosed [(1, 2), (1, 2)] = Some [(1, 2), (1, 2)]"
    by (simp add: ensureClosed_def elemAt_def)
  have l: "length [(1 :: real, 2 :: real), (1, 2)] < 3" by simp
  show ?thesis
    using recognize_too_few_points [OF c l, of "''red''"] c by simp
qed

text \<open>
  Claim C1. When the simplified closed path \<open>pts\<close> has at least 3 points,
  \<open>recognize\<close> takes the rectangle, circle and triangle candidates, keeps those of
  confidence above 0.4 (so every candidate below 0.4 is discarded), and returns the shape
  of a survivor of greatest confidence; with no survivor it returns Freeform over \<open>pts\<close>.
\<close>

theorem recognize_arbitration:
  assumes "ensureClosed pointsRaw = Some rawClosed"
    and "w = bw (bbox rawClosed)" and "h = bh (bbox rawClosed)"
    and "rdp rawClosed (max 3 (hypot w h * 0.01)) = Some pts"
    and "3 \<le> length pts"
    and "polygonPerimeter pts = Some P" and "polygonArea pts = Some A"
    and "pathClosed pointsRaw = Some isClosed"
    and "rect = classifyRectangle pts rawClosed P A w h color"
    and "circ = classifyCircle pts rawClosed P A w h isClosed color"
    and "classifyTriangle pts P A color = Some tri"
    and "survivors = filter (\<lambda>c. confidence c > 0.4) [rect, circ, tri]"
  shows "(\<forall>c \<in> set [rect, circ, tri]. confidence c < 0.4 \<longrightarrow> c \<notin> set survivors) \<and>
         (survivors = [] \<longrightarrow> recognize pointsRaw color = Some (Free pts color)) \<and>
         (survivors \<noteq> [] \<longrightarrow>
            (\<exists>c \<in> set survivors. recognize pointsRaw color = Some (shape c) \<and>
               (\<forall>d \<in> set survivors. confidence d \<le> confidence c)))"
proof -
  let ?cmp = "\<lambda>a b. confidence b - confidence a"
  have r: "recognize pointsRaw color =
     (if survivors = [] then Some (Free pts color)
      else Some (shape (hd (sortBy ?cmp survivors))))"
    by (rule recognize_classified [OF assms])
  have drop: "\<forall>c \<in> set [rect, circ, tri]. confidence c < 0.4 \<longrightarrow> c \<notin> set survivors"
    unfolding assms(12) by auto
  have best: "\<exists>c \<in> set survivors. recognize pointsRaw color = Some (shape c) \<and>
               (\<forall>d \<in> set survivors. confidence d \<le> confidence c)" if ne: "survivors \<noteq> []"
  proof -
    from hd_sortBy_confidence [OF ne] obtain i where i: "i < length survivors"
        "hd (sortBy ?cmp survivors) = survivors ! i"
        "\<forall>j < length survivors. confidence (survivors ! j) \<le> confidence (survivors ! i)"
      by blast
    have "\<forall>d \<in> set survivors. confidence d \<le> confidence (survivors ! i)"
      using i(3) by (auto simp: in_set_conv_nth)
    moreover have "recognize pointsRaw color = Some (shape (survivors ! i))"
      using r ne i(2) by simp
    ultimately show ?thesis using i(1) nth_mem by blast
  qed
  show ?thesis using r drop best by simp
qed

theorem recognize_arbitration_witness:
  "ensureClosed slab = Some slab \<and> 3 \<le> length slab \<and>
   (\<exists>c :: ShapeCandidate. recognize slab ''red'' = Some (shape c) \<and> 0.4 < confidence c)"
proof -
  obtain tri where tri: "classifyTriangle slab 88 320 ''red'' = Some tri"
    using classifyTriangle_total by blast
  define rect where "rect = classifyRectangle slab slab 88 320 40 8 ''red''"
  define survivors where "survivors = filter (\<lambda>c. confidence c > 0.4)
      [rect, classifyCircle slab slab 88 320 40 8 True ''red'', tri]"
  have w: "40 = bw (bbox slab)" and h: "8 = bh (bbox slab)" by (simp_all add: slab_bbox)
  have e: "rdp slab (max 3 (hypot 40 8 * 0.01)) = Some slab"
    using slab_eps slab_rdp by simp
  have l: "3 \<le> length slab" by simp
  have "confidence rect > 0.4"
    using pi_less_4 by (simp add: rect_def slab_rect)
  then have ne: "survivors \<noteq> []" by (simp add: survivors_def)
  have "\<exists>c \<in> set survivors. recognize slab ''red'' = Some (shape c)"
    using recognize_arbitration [OF slab_closed w h e l slab_perimeter slab_area
        slab_pathClosed rect_def refl tri survivors_def] ne by blast
  then obtain c where c: "c \<in> set survivors" "recognize slab ''red'' = Some (shape c)"
    by blast
  have "0.4 < confidence c"
    using c(1) unfolding survivors_def set_filter by blast
  then have "\<exists>c :: ShapeCandidate. recognize slab ''red'' = Some (shape c) \<and> 0.4 < confidence c"
    using c(2) by blast
  then show ?thesis using slab_closed by simp
qed

text \<open>
  Claim C10. The survivors are listed in the order rectangle, circle, triangle, and the
  returned shape is that of the survivor at an index \<open>i\<close> of greatest confidence such that
  every survivor before \<open>i\<close> has strictly smaller confidence: among equal greatest
  confidences the earliest wins.
\<close>

theorem recognize_tie_break:
  assumes "ensureClosed pointsRaw = Some rawClosed"
    and "w = bw (bbox rawClosed)" and "h = bh (bbox rawClosed)"
    and "rdp rawClosed (max 3 (hypot w h * 0.01)) = Some pts"
    and "3 \<le> length pts"
    and "polygonPerimeter pts = Some P" and "polygonArea pts = Some A"
    and "pathClosed pointsRaw = Some isClosed"
    and "rect = classifyRectangle pts rawClosed P A w h color"
    and "circ = classifyCircle pts rawClosed P A w h isClosed color"
    and "classifyTriangle pts P A color = Some tri"
    and "survivors = filter (\<lambda>c. confidence c > 0.4) [rect, circ, tri]"
    and "survivors \<noteq> []"
  shows "\<exists>i < length survivors.
           recognize pointsRaw color = Some (shape (survivors ! i)) \<and>
           (\<forall>j < length survivors. confidence (survivors ! j) \<le> confidence (survivors ! i)) \<and>
           (\<forall>j < i. confidence (survivors ! j) < confidence (survivors ! i))"
proof -
  let ?cmp = "\<lambda>a b. confidence b - confidence a"
  have "recognize pointsRaw color = Some (shape (hd (sortBy ?cmp survivors)))"
    using recognize_classified [OF assms(1-12)] assms(13) by simp
  then show ?thesis
    using hd_sortBy_confidence [OF assms(13)] by auto
qed

theorem recognize_tie_break_witness:
  "ensureClosed slab = Some slab \<and> 3 \<le> length slab \<and>
   (\<exists>tri. classifyTriangle slab 88 320 ''red'' = Some tri \<and>
      (\<exists>i < length (filter (\<lambda>c. confidence c > 0.4)
                [classifyRectangle slab slab 88 320 40 8 ''red'',
                 classifyCircle slab slab 88 320 40 8 True ''red'', tri]).
         recognize slab ''red'' =
           Some (shape (filter (\<lambda>c. confidence c > 0.4)
                [classifyRectangle slab slab 88 320 40 8 ''red'',
                 classifyCircle slab slab 88 320 40 8 True ''red'', tri] ! i))))"
proof -
  obtain tri where tri: "classifyTriangle slab 88 320 ''red'' = Some tri"
    using classifyTriangle_total by blast
  define rect where "rect = classifyRectangle slab slab 88 320 40 8 ''red''"
  define survivors where "survivors = filter (\<lambda>c. confidence c > 0.4)
      [rect, classifyCircle slab slab 88 320 40 8 True ''red'', tri]"
  have w: "40 = bw (bbox slab)" and h: "8 = bh (bbox slab)" by (simp_all add: slab_bbox)
  have e: "rdp slab (max 3 (hypot 40 8 * 0.01)) = Some slab"
    using slab_eps slab_rdp by simp
  have l: "3 \<le> length slab" by simp
  have "confidence rect > 0.4"
    using pi_less_4 by (simp add: rect_def slab_rect)
  then have ne: "survivors \<noteq> []" by (simp add: survivors_def)
  have "\<exists>i < length survivors. recognize slab ''red'' = Some (shape (survivors ! i))"
    using recognize_tie_break [OF slab_closed w h e l slab_perimeter slab_area
        slab_pathClosed rect_def refl tri survivors_def ne] by blast
  then show ?thesis
    using slab_closed tri unfolding survivors_def rect_def by simp
qed

section \<open>The triangle search\<close>

lemma foldM_append:
  "foldM f (xs @ ys) s = (case foldM f xs s of None \<Rightarrow> None | Some t \<Rightarrow> foldM f ys t)"
  by (induction xs arbitrary: s) (auto split: option.splits)

lemma foldM_map_Pair: "foldM (\<lambda>(x, y). g x y) (map (Pair x) ys) s = foldM (g x) ys s"
  by (induction ys arbitrary: s) (auto split: option.splits)

lemma foldM_nested:
  "foldM (\<lambda>x. foldM (g x) (h x)) xs s
     = foldM (\<lambda>(x, y). g x y) (concat (map (\<lambda>x. map (Pair x) (h x)) xs)) s"
  by (induction xs arbitrary: s) (auto simp: foldM_append foldM_map_Pair split: option.splits)

lemma triSearch_flat:
  "triSearch pts = foldM (\<lambda>(i, j, k). triStep pts i j k) (triples (length pts)) ([], - 1)"
proof -
  have inner: "foldM (\<lambda>j. foldM (\<lambda>k. triStep pts i j k) [j + 1..<n]) js
      = foldM (\<lambda>(j, k). triStep pts i j k) (concat (map (\<lambda>j. map (Pair j) [j + 1..<n]) js))"
    for i n js
    by (rule ext) (rule foldM_nested)
  show ?thesis
    unfolding triSearch_def triples_def inner
    by (subst foldM_nested) (simp add: split_def)
qed

lemma mem_triples: "(i, j, k) \<in> set (triples n) \<longleftrightarrow> i < j \<and> j < k \<and> k < n"
proof
  assume "(i, j, k) \<in> set (triples n)"
  then show "i < j \<and> j < k \<and> k < n" by (auto simp: triples_def)
next
  assume a: "i < j \<and> j < k \<and> k < n"
  then have "j \<in> {Suc i..<n}" and "(j, k) \<in> Pair j ` {Suc j..<n}" by auto
  then have "(j, k) \<in> (\<Union>x \<in> {Suc i..<n}. Pair x ` {Suc x..<n})" by blast
  then have "(i, j, k) \<in> Pair i ` (\<Union>x \<in> {Suc i..<n}. Pair x ` {Suc x..<n})" by blast
  moreover have "i \<in> {0..<n}" using a by auto
  moreover have "set (triples n)
      = (\<Union>i \<in> {0..<n}. Pair i ` (\<Union>x \<in> {Suc i..<n}. Pair x ` {Suc x..<n}))"
    by (simp add: triples_def)
  ultimately show "(i, j, k) \<in> set (triples n)"
    by (metis (no_types, lifting) UN_I)
qed

lemma set_triples: "set (triples n) = {(i, j, k). i < j \<and> j < k \<and> k < n}"
  using mem_triples by auto

lemma triStep_eq:
  assumes "i < length pts" "j < length pts" "k < length pts"
  shows "triStep pts i j k (best, m) =
     Some (if pairwise_sum (pts ! i) (pts ! j) (pts ! k) > m
           then ([pts ! i, pts ! j, pts ! k], pairwise_sum (pts ! i) (pts ! j) (pts ! k))
           else (best, m))"
proof -
  have h: "hypot (fst p - fst q) (snd p - snd q) = euclid p q" for p q
    by (rule hypot_euclid)
  obtain xi yi xj yj xk yk where p: "pts ! i = (xi, yi)" "pts ! j = (xj, yj)" "pts ! k = (xk, yk)"
    by (metis surj_pair)
  show ?thesis
    using assms h [of "pts ! i" "pts ! j"] h [of "pts ! j" "pts ! k"] h [of "pts ! k" "pts ! i"]
    by (simp add: triStep_def p pairwise_sum_def Let_def)
qed

lemma pairwise_sum_nonneg: "0 \<le> pairwise_sum a b c"
  by (simp add: pairwise_sum_def euclid_def)

lemma triple_scan:
  assumes "\<forall>(i, j, k) \<in> set ts. i < length pts \<and> j < length pts \<and> k < length pts"
    and "bestOf pts seen s"
  shows "\<exists>s'. foldM (\<lambda>(i, j, k). triStep pts i j k) ts s = Some s' \<and> bestOf pts (seen @ ts) s'"
  using assms
proof (induction ts arbitrary: seen s)
  case Nil
  then show ?case by simp
next
  case (Cons t ts)
  obtain i j k where t: "t = (i, j, k)" by (cases t)
  obtain best m where s: "s = (best, m)" by (cases s)
  have r: "i < length pts" "j < length pts" "k < length pts"
    using Cons.prems(1) t by auto
  let ?v = "pairwise_sum (pts ! i) (pts ! j) (pts ! k)"
  let ?s1 = "if ?v > m then ([pts ! i, pts ! j, pts ! k], ?v) else (best, m)"
  have step: "triStep pts i j k s = Some ?s1"
    unfolding s by (rule triStep_eq [OF r])
  have inv: "bestOf pts (seen @ [t]) ?s1"
  proof (cases "seen = []")
    case True
    then have "m = - 1" using Cons.prems(2) s by (auto simp: bestOf_def)
    then have "?v > m" using pairwise_sum_nonneg [of "pts ! i" "pts ! j" "pts ! k"] by simp
    then show ?thesis using True t by (simp add: bestOf_def)
  next
    case False
    then show ?thesis
      using Cons.prems(2) s t by (fastforce simp: bestOf_def)
  qed
  have "\<exists>s'. foldM (\<lambda>(i, j, k). triStep pts i j k) ts ?s1 = Some s'
           \<and> bestOf pts ((seen @ [t]) @ ts) s'"
    using Cons.prems(1) by (intro Cons.IH [OF _ inv]) simp
  then show ?case using step t by simp
qed

lemma triSearch_best:
  "\<exists>best m. triSearch pts = Some (best, m) \<and> bestOf pts (triples (length pts)) (best, m)"
proof -
  have "\<exists>s'. foldM (\<lambda>(i, j, k). triStep pts i j k) (triples (length pts)) ([], - 1) = Some s'
          \<and> bestOf pts ([] @ triples (length pts)) s'"
    by (rule triple_scan) (auto simp: set_triples bestOf_def)
  then show ?thesis by (auto simp: triSearch_flat)
qed

text \<open>
  Claim C7. Whenever the triangle classifier emits a Triangle, its vertices are three
  points of the simplified polygon at indices \<open>i < j < k\<close>, and no other index triple has
  a greater sum of pairwise distances.
\<close>

theorem classifyTriangle_vertices:
  assumes "classifyTriangle pts P A color = Some c" and "shape c = Triangle vs col"
  shows "\<exists>i j k. i < j \<and> j < k \<and> k < length pts \<and> vs = [pts ! i, pts ! j, pts ! k] \<and>
           (\<forall>i' j' k'. i' < j' \<and> j' < k' \<and> k' < length pts \<longrightarrow>
              pairwise_sum (pts ! i') (pts ! j') (pts ! k')
                \<le> pairwise_sum (pts ! i) (pts ! j) (pts ! k))"
proof -
  obtain n where n: "countCorners pts = Some n" using countCorners_total by blast
  obtain best m where b: "triSearch pts = Some (best, m)"
      "bestOf pts (triples (length pts)) (best, m)"
    using triSearch_best by blast
  have "length best = 3 \<and> vs = best"
    using assms n b(1) by (auto simp: classifyTriangle_def Let_def split: if_splits)
  then have "\<exists>(i, j, k) \<in> set (triples (length pts)).
        vs = [pts ! i, pts ! j, pts ! k] \<and> m = pairwise_sum (pts ! i) (pts ! j) (pts ! k) \<and>
        (\<forall>(i', j', k') \<in> set (triples (length pts)).
            pairwise_sum (pts ! i') (pts ! j') (pts ! k') \<le> m)"
    using b(2) by (auto simp: bestOf_def)
  then show ?thesis
    unfolding set_triples by blast
qed

lemma step0: "cornerStep unitSquare 0 c = Some (c + 1)"
  by (simp add: cornerStep_def elemAt_def toDeg_def hypot_def or1_def Let_def)

lemma step1: "cornerStep unitSquare 1 c = Some (c + 1)"
  by (simp add: cornerStep_def elemAt_def toDeg_def hypot_def or1_def Let_def)

lemma step2: "cornerStep unitSquare 2 c = Some (c + 1)"
  by (simp add: cornerStep_def elemAt_def toDeg_def hypot_def or1_def Let_def)

lemma step3: "cornerStep unitSquare 3 c = Some (c + 1)"
  by (simp add: cornerStep_def elemAt_def toDeg_def hypot_def or1_def Let_def)

lemma unitSquare_corners: "countCorners unitSquare = Some 4"
proof -
  have idx: "[0..<length unitSquare] = [0, 1, 2, 3]"
    by (simp add: upt_rec)
  have "foldM (cornerStep unitSquare) [0, 1, 2, 3] 0 = Some 4"
    by (simp only: foldM.simps step0 step1 step2 step3 option.case) simp
  then show ?thesis
    unfolding countCorners_def idx by simp
qed

lemma unitSquare_search:
  "triSearch unitSquare = Some ([(0, 0), (1, 0), (1, 1)], 2 + sqrt 2)"
proof -
  have p: "0 < 3 + sqrt 2" using real_sqrt_ge_zero [of 2] by linarith
  have t: "triples (length unitSquare) = [(0, 1, 2), (0, 1, 3), (0, 2, 3), (1, 2, 3)]"
    by (simp add: triples_def upt_rec)
  have s0: "triStep unitSquare 0 1 2 ([], - 1) = Some ([(0, 0), (1, 0), (1, 1)], 2 + sqrt 2)"
    using p by (simp add: triStep_def elemAt_def hypot_def)
  have s1: "triStep unitSquare 0 1 3 ([(0, 0), (1, 0), (1, 1)], 2 + sqrt 2)
      = Some ([(0, 0), (1, 0), (1, 1)], 2 + sqrt 2)"
    by (simp add: triStep_def elemAt_def hypot_def)
  have s2: "triStep unitSquare 0 2 3 ([(0, 0), (1, 0), (1, 1)], 2 + sqrt 2)
      = Some ([(0, 0), (1, 0), (1, 1)], 2 + sqrt 2)"
    by (simp add: triStep_def elemAt_def hypot_def)
  have s3: "triStep unitSquare 1 2 3 ([(0, 0), (1, 0), (1, 1)], 2 + sqrt 2)
      = Some ([(0, 0), (1, 0), (1, 1)], 2 + sqrt 2)"
    by (simp add: triStep_def elemAt_def hypot_def)
  show ?thesis
    unfolding triSearch_flat t
    by (simp only: foldM.simps prod.case s0 s1 s2 s3 option.case)
qed

lemma unitSquare_triangle:
  "classifyTriangle unitSquare 1 0 ''red'' =
     Some \<lparr> shape = Triangle [(0, 0), (1, 0), (1, 1)] ''red'', confidence = 7 / 10 \<rparr>"
  by (simp add: classifyTriangle_def unitSquare_corners unitSquare_search or1_def)


theorem classifyTriangle_vertices_witness:
  "classifyTriangle unitSquare 1 0 ''red'' =
     Some \<lparr> shape = Triangle [(0, 0), (1, 0), (1, 1)] ''red'', confidence = 7 / 10 \<rparr> \<and>
   (\<exists>i j k. i < j \<and> j < k \<and> k < length unitSquare \<and>
      [(0, 0), (1, 0), (1, 1)] = [unitSquare ! i, unitSquare ! j, unitSquare ! k])"
proof -
  have s: "shape \<lparr> shape = Triangle [(0, 0), (1, 0), (1, 1)] ''red'', confidence = 7 / 10 \<rparr>
      = Triangle [(0, 0), (1, 0), (1, 1)] ''red''"
    by simp
  from classifyTriangle_vertices [OF unitSquare_triangle s]
  obtain i j k where "i < j" "j < k" "k < length unitSquare"
      "[(0, 0), (1, 0), (1, 1)] = [unitSquare ! i, unitSquare ! j, unitSquare ! k]"
    by (elim exE conjE)
  then have "\<exists>i j k. i < j \<and> j < k \<and> k < length unitSquare \<and>
      [(0, 0), (1, 0), (1, 1)] = [unitSquare ! i, unitSquare ! j, unitSquare ! k]"
    by (intro exI [of _ i] exI [of _ j] exI [of _ k] conjI)
  then show ?thesis
    using unitSquare_triangle by (intro conjI)
qed

section \<open>The circle fit\<close>

lemma fold_add: "fold (\<lambda>v s. s + f v) xs a = a + sum_list (map f xs)" for a :: real
  by (induction xs arbitrary: a) (auto simp: algebra_simps)

lemma euclid_eq_0: "euclid p q = 0 \<longleftrightarrow> p = q"
proof -
  have "(fst p - fst q)\<^sup>2 + (snd p - snd q)\<^sup>2 = 0 \<longleftrightarrow> fst p = fst q \<and> snd p = snd q"
    by (simp add: sum_power2_eq_zero_iff)
  then show ?thesis
    by (simp add: euclid_def prod_eq_iff)
qed

lemma euclid_nonneg [simp]: "0 \<le> euclid p q"
  by (simp add: euclid_def)

lemma moments_const:
  assumes "\<forall>p \<in> set ps. p = (mx, my)"
  shows "fold (momentStep mx my) ps m = m"
  using assms by (induction ps arbitrary: m) (auto simp: momentStep_def)

lemma sum_list_const: "\<forall>x \<in> set xs. f x = k \<Longrightarrow> sum_list (map f xs) = real (length xs) * k"
  by (induction xs) (auto simp: algebra_simps)

lemma fitDen_const:
  assumes "\<forall>p \<in> set points. p = c"
  shows "fitDen points = 0"
proof (cases "points = []")
  case True
  then show ?thesis by (simp add: fitDen_def fitMoments_def)
next
  case False
  then have n: "real (length points) \<noteq> 0" by simp
  have "fitMeanX points = fst c"
    using assms n by (simp add: fitMeanX_def fold_add sum_list_const [of points fst "fst c"])
  moreover have "fitMeanY points = snd c"
    using assms n by (simp add: fitMeanY_def fold_add sum_list_const [of points snd "snd c"])
  ultimately have "fitMoments points =
      \<lparr> Suu = 0, Suv = 0, Svv = 0, Suuu = 0, Suvv = 0, Svvv = 0, Suuv = 0 \<rparr>"
    using assms by (simp add: fitMoments_def moments_const)
  then show ?thesis by (simp add: fitDen_def)
qed

lemma fit_radii:
  "map (\<lambda>(x, y). hypot (x - cx) (y - cy)) points = map (euclid (cx, cy)) points"
proof -
  have "hypot (x - cx) (y - cy) = euclid (cx, cy) (x, y)" for x y
    using hypot_euclid [of "(x, y)" "(cx, cy)"] by (simp add: euclid_commute)
  then show ?thesis by auto
qed

lemma average_pos:
  assumes "fitDen points \<noteq> 0"
  shows "0 < average (map (euclid c) points)"
proof -
  have ne: "points \<noteq> []" using assms fitDen_const [of points c] by auto
  have nn: "0 \<le> sum_list (map (euclid c) points)"
    by (rule sum_list_nonneg) auto
  have "sum_list (map (euclid c) points) \<noteq> 0"
  proof
    assume "sum_list (map (euclid c) points) = 0"
    then have "\<forall>d \<in> set (map (euclid c) points). d = 0"
      by (subst (asm) sum_list_nonneg_eq_0_iff) auto
    then have "\<forall>p \<in> set points. p = c"
      by (auto simp: euclid_eq_0)
    then show False using assms fitDen_const by blast
  qed
  then show ?thesis
    using nn ne by (simp add: average_def)
qed

text \<open>
  The circle fit in exact arithmetic. \<open>fitCircle\<close> returns null exactly when it has fewer
  than 6 points or the absolute value of the denominator is below 1e-6; otherwise its
  \<open>r\<close> is the average distance of the input points to the returned center and its
  \<open>stdRel\<close> is the standard deviation of those distances divided by \<open>r\<close>. The guard
  \<open>r || 1\<close> never takes effect there: a non-zero denominator means the points are not all
  equal, so \<open>r\<close> is positive.
\<close>

lemma fitCircle_spec:
  "(fitCircle points = None \<longleftrightarrow> length points < 6 \<or> \<bar>fitDen points\<bar> < 1 / 10 ^ 6) \<and>
   (\<forall>f. fitCircle points = Some f \<longrightarrow>
      fit_r f = average (map (euclid (fit_cx f, fit_cy f)) points) \<and>
      fit_stdRel f = std_dev (map (euclid (fit_cx f, fit_cy f)) points) / fit_r f)"
proof -
  have none: "fitCircle points = None \<longleftrightarrow> length points < 6 \<or> \<bar>fitDen points\<bar> < 1 / 10 ^ 6"
    by (simp add: fitCircle_def Let_def)
  have some: "fit_r f = average (map (euclid (fit_cx f, fit_cy f)) points) \<and>
      fit_stdRel f = std_dev (map (euclid (fit_cx f, fit_cy f)) points) / fit_r f"
    if f: "fitCircle points = Some f" for f
  proof -
    have den: "fitDen points \<noteq> 0" using f none by auto
    let ?ds = "map (euclid (fit_cx f, fit_cy f)) points"
    have r: "fit_r f = average ?ds"
      using f by (auto simp: fitCircle_def Let_def fit_radii fold_add average_def
                       split: if_splits)
    have pos: "fit_r f \<noteq> 0" using average_pos [OF den, of "(fit_cx f, fit_cy f)"] r by simp
    have "fit_stdRel f = sqrt (fold (\<lambda>v s. s + (v - fit_r f) * (v - fit_r f)) ?ds 0
                              / real (length points)) / or1 (fit_r f)"
      using f by (auto simp: fitCircle_def Let_def fit_radii split: if_splits)
    then have "fit_stdRel f = std_dev ?ds / fit_r f"
      using pos r by (simp add: or1_def std_dev_def average_def fold_add power2_eq_square comp_def)
    then show ?thesis using r by simp
  qed
  show ?thesis using none some by blast
qed

lemma ring_mean: "fitMeanX ring = 0" "fitMeanY ring = 0"
  by (simp_all add: fitMeanX_def fitMeanY_def)

lemma ring_moments:
  "fitMoments ring = \<lparr> Suu = 10, Suv = 0, Svv = 10, Suuu = 0, Suvv = 0, Svvv = 0, Suuv = 0 \<rparr>"
  by (simp add: fitMoments_def ring_mean momentStep_def)

lemma ring_den: "fitDen ring = 200"
  by (simp add: fitDen_def ring_moments)

lemma ring_sqrt: "sqrt (1 / 4) = 1 / 2"
  by (simp add: real_sqrt_divide)

lemma ring_fit:
  "fitCircle ring = Some \<lparr> fit_cx = 0, fit_cy = 0, fit_r = 3 / 2, fit_stdRel = 1 / 3 \<rparr>"
  by (simp add: fitCircle_def ring_mean ring_moments ring_den or1_def ring_sqrt)

lemma fitCircle_spec_witness:
  "fitCircle ring = Some \<lparr> fit_cx = 0, fit_cy = 0, fit_r = 3 / 2, fit_stdRel = 1 / 3 \<rparr> \<and>
   average (map (euclid (0, 0)) ring) = 3 / 2 \<and>
   std_dev (map (euclid (0, 0)) ring) / (3 / 2) = 1 / 3"
proof -
  have "fit_r \<lparr> fit_cx = 0, fit_cy = 0, fit_r = 3 / 2, fit_stdRel = 1 / 3 \<rparr>
          = average (map (euclid (fit_cx \<lparr> fit_cx = 0, fit_cy = 0, fit_r = 3 / 2, fit_stdRel = 1 / 3 \<rparr>,
                                 fit_cy \<lparr> fit_cx = 0, fit_cy = 0, fit_r = 3 / 2, fit_stdRel = 1 / 3 \<rparr>)) ring) \<and>
        fit_stdRel \<lparr> fit_cx = 0, fit_cy = 0, fit_r = 3 / 2, fit_stdRel = 1 / 3 \<rparr>
          = std_dev (map (euclid (fit_cx \<lparr> fit_cx = 0, fit_cy = 0, fit_r = 3 / 2, fit_stdRel = 1 / 3 \<rparr>,
                                 fit_cy \<lparr> fit_cx = 0, fit_cy = 0, fit_r = 3 / 2, fit_stdRel = 1 / 3 \<rparr>)) ring)
            / fit_r \<lparr> fit_cx = 0, fit_cy = 0, fit_r = 3 / 2, fit_stdRel = 1 / 3 \<rparr>"
    using fitCircle_spec [of ring] ring_fit by blast
  then have "3 / 2 = average (map (euclid (0, 0)) ring) \<and>
             1 / 3 = std_dev (map (euclid (0, 0)) ring) / (3 / 2)"
    by (simp only: CircleFit.simps)
  then show ?thesis using ring_fit by (intro conjI) simp_all
qed

subsection \<open>Collinear points, in exact arithmetic and in doubles\<close>




text \<open>
  A number of binade \<open>e\<close>, that is from \<open>2 powi e\<close> up to \<open>2 powi (e + 1)\<close>, is rounded to
  a multiple of \<open>2 powi (e - 52)\<close>.
\<close>

lemma binade_eq:
  assumes "2 powi e \<le> \<bar>x\<bar>" and "\<bar>x\<bar> < 2 powi (e + 1)"
  shows "binade x = e"
proof -
  have "(0 :: real) < 2 powi e" by simp
  then have pos: "0 < \<bar>x\<bar>" using assms(1) by linarith
  have "2 powr (of_int e) \<le> \<bar>x\<bar>" using assms(1) by (simp add: powr_real_of_int')
  then have a: "of_int e \<le> log 2 \<bar>x\<bar>" using pos by (simp add: le_log_iff)
  have "2 powr (of_int (e + 1)) = (2 :: real) powi (e + 1)"
    using powr_real_of_int' [of 2 "e + 1"] by simp
  then have "\<bar>x\<bar> < 2 powr (of_int (e + 1))" using assms(2) by (simp only:)
  then have b: "log 2 \<bar>x\<bar> < of_int (e + 1)" using pos by (simp only: log_less_iff)
  show ?thesis unfolding binade_def using a b by linarith
qed

lemma fl_eval:
  assumes "2 powi e \<le> \<bar>x\<bar>" and "\<bar>x\<bar> < 2 powi (e + 1)"
  shows "fl x = of_int (rne (x / 2 powi (e - 52))) * 2 powi (e - 52)"
proof -
  have "(0 :: real) < 2 powi e" by simp
  then have "0 < \<bar>x\<bar>" using assms(1) by linarith
  then have "x \<noteq> 0" by simp
  then show ?thesis by (simp add: fl_def binade_eq [OF assms])
qed

lemma fl_0 [simp]: "fl 0 = 0"
  by (simp add: fl_def)

text \<open>
  Rounding commutes with the multiplication by a power of two, and so does every rounded
  operation of the program: a sum or difference of two quantities scaled by \<open>2 powi n\<close>
  is the scaled sum or difference, a product is scaled by the product of the scales, a
  square root by the root of the scale, and a quotient of two quantities of the same
  scale does not change.
\<close>

lemma binade_bounds:
  assumes "x \<noteq> 0"
  shows "2 powi (binade x) \<le> \<bar>x\<bar>" and "\<bar>x\<bar> < 2 powi (binade x + 1)"
proof -
  have pos: "0 < \<bar>x\<bar>" using assms by simp
  have a: "of_int (binade x) \<le> log 2 \<bar>x\<bar>" and b: "log 2 \<bar>x\<bar> < of_int (binade x + 1)"
    unfolding binade_def by linarith+
  have "2 powr (of_int (binade x)) \<le> \<bar>x\<bar>" using a pos by (simp add: le_log_iff)
  then show "2 powi (binade x) \<le> \<bar>x\<bar>" by (simp add: powr_real_of_int')
  have "\<bar>x\<bar> < 2 powr (of_int (binade x + 1))" using b pos by (simp only: log_less_iff)
  moreover have "2 powr (of_int (binade x + 1)) = (2 :: real) powi (binade x + 1)"
    using powr_real_of_int' [of 2 "binade x + 1"] by simp
  ultimately show "\<bar>x\<bar> < 2 powi (binade x + 1)" by (simp only:)
qed

lemma fl_scale: "fl (2 powi n * x) = 2 powi n * fl x"
proof (cases "x = 0")
  case True
  then show ?thesis by simp
next
  case False
  let ?e = "binade x"
  have p: "(0 :: real) < 2 powi n" by simp
  have s: "(2 :: real) powi (?e + n) = 2 powi n * 2 powi ?e"
    "(2 :: real) powi (?e + n + 1) = 2 powi n * 2 powi (?e + 1)"
    "(2 :: real) powi (?e + n - 52) = 2 powi n * 2 powi (?e - 52)"
    by (simp_all add: power_int_add power_int_diff)
  have abs: "\<bar>2 powi n * x\<bar> = 2 powi n * \<bar>x\<bar>" by (simp add: abs_mult)
  have lo: "2 powi (?e + n) \<le> \<bar>2 powi n * x\<bar>"
    unfolding s abs using binade_bounds(1) [OF False] p by simp
  have hi: "\<bar>2 powi n * x\<bar> < 2 powi (?e + n + 1)"
    unfolding s abs using binade_bounds(2) [OF False] p by simp
  have "fl (2 powi n * x)
      = of_int (rne (2 powi n * x / 2 powi (?e + n - 52))) * 2 powi (?e + n - 52)"
    by (rule fl_eval [OF lo hi])
  also have "2 powi n * x / 2 powi (?e + n - 52) = x / 2 powi (?e - 52)"
    unfolding s by simp
  also have "of_int (rne (x / 2 powi (?e - 52))) * 2 powi (?e + n - 52) = 2 powi n * fl x"
    unfolding s using False by (simp add: fl_def)
  finally show ?thesis .
qed

lemma fl_scale_ops:
  "fl (2 powi n * x + 2 powi n * y) = 2 powi n * fl (x + y)"
  "fl (2 powi n * x - 2 powi n * y) = 2 powi n * fl (x - y)"
  "fl ((2 powi n * x) * (2 powi m * y)) = 2 powi (n + m) * fl (x * y)"
  "fl ((2 powi n * x) / (2 powi n * y)) = fl (x / y)"
  "fl (sqrt ((2 powi n)\<^sup>2 * x)) = 2 powi n * fl (sqrt x)"
proof -
  show "fl (2 powi n * x + 2 powi n * y) = 2 powi n * fl (x + y)"
    using fl_scale [of n "x + y"] by (simp add: algebra_simps)
  show "fl (2 powi n * x - 2 powi n * y) = 2 powi n * fl (x - y)"
    using fl_scale [of n "x - y"] by (simp add: algebra_simps)
  have "(2 powi n * x) * (2 powi m * y) = 2 powi (n + m) * (x * y)"
    by (simp add: power_int_add)
  then show "fl ((2 powi n * x) * (2 powi m * y)) = 2 powi (n + m) * fl (x * y)"
    using fl_scale [of "n + m" "x * y"] by (simp only:)
  show "fl ((2 powi n * x) / (2 powi n * y)) = fl (x / y)"
    by simp
  have "sqrt ((2 powi n)\<^sup>2 * x) = 2 powi n * sqrt x"
    by (simp add: real_sqrt_mult)
  then show "fl (sqrt ((2 powi n)\<^sup>2 * x)) = 2 powi n * fl (sqrt x)"
    using fl_scale [of n "sqrt x"] by (simp only:)
qed




















section \<open>Invariants of the result\<close>

lemma Math_min_Min: "xs \<noteq> [] \<Longrightarrow> Math_min xs = Min (set xs)"
proof (cases xs)
  case (Cons a list)
  then show ?thesis using Min.set_eq_fold [of a list] by simp
qed simp

lemma Math_max_Max: "xs \<noteq> [] \<Longrightarrow> Math_max xs = Max (set xs)"
proof (cases xs)
  case (Cons a list)
  then show ?thesis using Max.set_eq_fold [of a list] by simp
qed simp

lemma bbox_extent:
  assumes "points \<noteq> []"
  shows "bw (bbox points) = Max (fst ` set points) - Min (fst ` set points)"
    and "bh (bbox points) = Max (snd ` set points) - Min (snd ` set points)"
    and "minX (bbox points) = Min (fst ` set points)"
    and "minY (bbox points) = Min (snd ` set points)"
  using assms by (simp_all add: bbox_def Let_def Math_min_Min Math_max_Max)

lemma extent_nonneg:
  fixes S :: "real set"
  assumes "finite S" "S \<noteq> {}"
  shows "0 \<le> Max S - Min S"
  using assms by (simp add: Min_le_iff)

lemma extent_zero:
  fixes S :: "real set"
  assumes "finite S" "Max S - Min S \<le> 0" "a \<in> S" "b \<in> S"
  shows "a = b"
proof -
  have "Min S \<le> a" "a \<le> Max S" "Min S \<le> b" "b \<le> Max S"
    using assms by auto
  then show ?thesis using assms(2) by linarith
qed

lemma bbox_nonneg:
  "points \<noteq> [] \<Longrightarrow> 0 \<le> bw (bbox points)" "points \<noteq> [] \<Longrightarrow> 0 \<le> bh (bbox points)"
  by (simp_all add: bbox_extent extent_nonneg)

text \<open>A shoelace sum whose terms telescope is 0.\<close>

lemma area_telescope:
  assumes "\<And>i j. i < length pts \<Longrightarrow> j < length pts \<Longrightarrow>
      fst (pts ! j) * snd (pts ! i) - fst (pts ! i) * snd (pts ! j) = G i - G j"
  shows "polygonArea pts = Some 0"
proof -
  let ?n = "length pts"
  let ?f = "\<lambda>i (a, j). do {
                        (xi, yi) \<leftarrow> elemAt pts i;
                        (xj, yj) \<leftarrow> elemAt pts j;
                        Some (a + (xj * yi - xi * yj), i) }"
  have step: "?f i (a, j) = Some (a + (G i - G j), i)" if "i < ?n" "j < ?n" for i j a
    using that assms [of i j] by (simp add: elemAt_def split_beta)
  have loop: "k \<le> ?n \<Longrightarrow> foldM ?f [0..<k] (0, ?n - 1)
      = Some (if k = 0 then (0, ?n - 1) else (G (k - 1) - G (?n - 1), k - 1))" for k
  proof (induction k)
    case 0
    then show ?case by simp
  next
    case (Suc k)
    then have k: "k < ?n" "?n - 1 < ?n" "k - 1 < ?n" by auto
    show ?case
    proof (cases "k = 0")
      case True
      then show ?thesis
        using step [OF k(1) k(2), of 0] by simp
    next
      case False
      then show ?thesis
        using Suc step [OF k(1) k(3), of "G (k - 1) - G (?n - 1)"]
        by (simp add: foldM_append)
    qed
  qed
  have "foldM ?f [0..<?n] (0, ?n - 1)
      = Some (if ?n = 0 then (0, ?n - 1) else (0, ?n - 1))"
    using loop [of ?n] by simp
  then show ?thesis
    by (simp add: polygonArea_def)
qed

lemma area_same_x:
  assumes "\<forall>p \<in> set pts. fst p = c"
  shows "polygonArea pts = Some 0"
proof (rule area_telescope [where G = "\<lambda>i. c * snd (pts ! i)"])
  fix i j assume "i < length pts" "j < length pts"
  then have "fst (pts ! i) = c" "fst (pts ! j) = c" using assms by auto
  then show "fst (pts ! j) * snd (pts ! i) - fst (pts ! i) * snd (pts ! j)
      = c * snd (pts ! i) - c * snd (pts ! j)" by simp
qed

lemma area_same_y:
  assumes "\<forall>p \<in> set pts. snd p = c"
  shows "polygonArea pts = Some 0"
proof (rule area_telescope [where G = "\<lambda>i. - (c * fst (pts ! i))"])
  fix i j assume "i < length pts" "j < length pts"
  then have "snd (pts ! i) = c" "snd (pts ! j) = c" using assms by auto
  then show "fst (pts ! j) * snd (pts ! i) - fst (pts ! i) * snd (pts ! j)
      = - (c * fst (pts ! i)) - - (c * fst (pts ! j))" by (simp add: algebra_simps)
qed

lemma area_needs_extent:
  assumes "polygonArea pts = Some A" and "A \<noteq> 0"
    and "set pts \<subseteq> set rawClosed"
  shows "0 < bw (bbox rawClosed) \<and> 0 < bh (bbox rawClosed)"
proof -
  have ne: "rawClosed \<noteq> []"
    using assms by (cases pts) (auto simp: polygonArea_def)
  have fin: "finite (fst ` set rawClosed)" "finite (snd ` set rawClosed)" by auto
  have h: "hd rawClosed \<in> set rawClosed" using ne by simp
  have "\<not> bw (bbox rawClosed) \<le> 0"
  proof
    assume "bw (bbox rawClosed) \<le> 0"
    then have z: "Max (fst ` set rawClosed) - Min (fst ` set rawClosed) \<le> 0"
      using ne by (simp add: bbox_extent)
    have "fst p = fst (hd rawClosed)" if "p \<in> set pts" for p
      using that assms(3) h by (intro extent_zero [OF fin(1) z]) auto
    then have "\<forall>p \<in> set pts. fst p = fst (hd rawClosed)" by simp
    then show False using area_same_x assms(1,2) by fastforce
  qed
  moreover have "\<not> bh (bbox rawClosed) \<le> 0"
  proof
    assume "bh (bbox rawClosed) \<le> 0"
    then have z: "Max (snd ` set rawClosed) - Min (snd ` set rawClosed) \<le> 0"
      using ne by (simp add: bbox_extent)
    have "snd p = snd (hd rawClosed)" if "p \<in> set pts" for p
      using that assms(3) h by (intro extent_zero [OF fin(2) z]) auto
    then have "\<forall>p \<in> set pts. snd p = snd (hd rawClosed)" by simp
    then show False using area_same_y assms(1,2) by fastforce
  qed
  ultimately show ?thesis by simp
qed

lemma subseq_set: "subseq xs ys \<Longrightarrow> set xs \<subseteq> set ys"
  by (induction rule: list_emb.induct) auto

lemma classifyRectangle_area:
  assumes "0.4 < confidence (classifyRectangle pts rawClosed P A w h color)"
  shows "A \<noteq> 0"
proof
  assume "A = 0"
  then have "confidence (classifyRectangle pts rawClosed P A w h color) = 0"
    by (simp add: classifyRectangle_def Let_def)
  then show False using assms by simp
qed

lemma classifyRectangle_positive:
  assumes "0 < w" and "0 < h"
  shows "wellFormed (shape (classifyRectangle pts rawClosed P A w h color))"
  using assms by (simp add: classifyRectangle_def Let_def wellFormed_def)

lemma classifyCircle_positive:
  assumes "0.4 < confidence (classifyCircle pts rawClosed P A w h isClosed color)"
  shows "wellFormed (shape (classifyCircle pts rawClosed P A w h isClosed color))"
proof (cases "\<not> isClosed \<or> min w h < 10")
  case True
  then have "confidence (classifyCircle pts rawClosed P A w h isClosed color) = 0"
    by (simp add: classifyCircle_def)
  then show ?thesis using assms by simp
next
  case False
  then have "10 \<le> min w h" by linarith
  then have m: "0 < min w h / 2" by linarith
  show ?thesis
  proof (cases "fitCircle pts")
    case None
    then show ?thesis
      using False m by (simp add: classifyCircle_def Let_def wellFormed_def)
  next
    case (Some fit)
    show ?thesis
    proof (cases "fit_r fit > 6 \<and> fit_stdRel fit < 0.15")
      case True
      then have "shape (classifyCircle pts rawClosed P A w h isClosed color)
          = Circle (fit_cx fit) (fit_cy fit) (fit_r fit) color"
        using False Some by (simp add: classifyCircle_def Let_def)
      then show ?thesis using True by (simp add: wellFormed_def)
    next
      case nofit: False
      then have "shape (classifyCircle pts rawClosed P A w h isClosed color)
          = Circle (minX (bbox rawClosed) + w / 2) (minY (bbox rawClosed) + h / 2)
              (min w h / 2) color"
        using False Some by (auto simp: classifyCircle_def Let_def)
      then show ?thesis using m by (simp add: wellFormed_def)
    qed
  qed
qed

lemma classifyTriangle_shape:
  assumes "classifyTriangle pts P A color = Some tri"
  shows "(\<exists>vs. shape tri = Triangle vs color) \<or> shape tri = Free pts color"
proof -
  obtain n where n: "countCorners pts = Some n" using countCorners_total by blast
  obtain best maxSum where t: "triSearch pts = Some (best, maxSum)"
    using triSearch_total by blast
  define conf where "conf = (if n \<ge> 3 \<and> n \<le> 5 \<and> (4 * pi * A) / (or1 P * or1 P) < 0.85
       then min 0.8 ((real n - 2) * 0.2) + (1 - (4 * pi * A) / (or1 P * or1 P)) * 0.3
       else 0)"
  have "(if conf < 0.3 then Some \<lparr> shape = Free pts color, confidence = 0 \<rparr>
         else Some (if length best = 3
                    then \<lparr> shape = Triangle best color, confidence = conf \<rparr>
                    else \<lparr> shape = Free pts color, confidence = 0 \<rparr>)) = Some tri"
    using assms unfolding classifyTriangle_def n t conf_def
    by (simp only: Option.bind.simps Let_def prod.case)
  then show ?thesis
    by (cases "conf < 0.3"; cases "length best = 3") auto
qed

text \<open>
  Claim C8. For every non-empty stroke \<open>recognize\<close> returns one shape, and it is well
  formed: a Circle has a positive radius, a Rectangle a positive width and height, a
  Freeform at least one point. For the rectangle: its candidate survives only with a
  non-zero polygon area, and a polygon inside a bounding box of width or height 0 has
  area 0.
\<close>

theorem recognize_invariants:
  assumes "pointsRaw \<noteq> []"
  shows "\<exists>s. recognize pointsRaw color = Some s \<and> wellFormed s"
proof -
  obtain rawClosed where rc: "ensureClosed pointsRaw = Some rawClosed"
    using ensureClosed_cases by blast
  have rne: "rawClosed \<noteq> []"
    using ensureClosed_cases [of pointsRaw] rc assms by auto
  define w where w: "w = bw (bbox rawClosed)"
  define h where h: "h = bh (bbox rawClosed)"
  obtain pts where pts: "rdp rawClosed (max 3 (hypot w h * 0.01)) = Some pts"
      and sub: "subseq pts rawClosed"
    using rdp_props by blast
  show ?thesis
  proof (cases "length pts < 3")
    case True
    then have "recognize pointsRaw color = Some (Free rawClosed color)"
      using recognize_short [OF rc] pts w h by simp
    then show ?thesis using rne by (simp add: wellFormed_def Suc_le_eq)
  next
    case False
    then have len: "3 \<le> length pts" by simp
    obtain P where P: "polygonPerimeter pts = Some P" using polygonPerimeter_total by blast
    obtain A where A: "polygonArea pts = Some A" using polygonArea_total by blast
    obtain isClosed where c: "pathClosed pointsRaw = Some isClosed"
      using pathClosed_char by blast
    obtain tri where tri: "classifyTriangle pts P A color = Some tri"
      using classifyTriangle_total by blast
    define rect where "rect = classifyRectangle pts rawClosed P A w h color"
    define circ where "circ = classifyCircle pts rawClosed P A w h isClosed color"
    define survivors where "survivors = filter (\<lambda>c. confidence c > 0.4) [rect, circ, tri]"
    let ?cmp = "\<lambda>a b :: ShapeCandidate. confidence b - confidence a"
    have r: "recognize pointsRaw color =
       (if survivors = [] then Some (Free pts color)
        else Some (shape (hd (sortBy ?cmp survivors))))"
      by (rule recognize_classified [OF rc w h pts len P A c rect_def circ_def tri survivors_def])
    show ?thesis
    proof (cases "survivors = []")
      case True
      then show ?thesis using r len by (simp add: wellFormed_def)
    next
      case False
      from hd_sortBy_confidence [OF False] obtain i where
          "i < length survivors" "hd (sortBy ?cmp survivors) = survivors ! i"
        by blast
      then have "hd (sortBy ?cmp survivors) \<in> set survivors" by simp
      then have mem: "hd (sortBy ?cmp survivors) \<in> {rect, circ, tri}"
          and conf: "0.4 < confidence (hd (sortBy ?cmp survivors))"
        unfolding survivors_def set_filter by auto
      have wf_rect: "wellFormed (shape rect)" if "0.4 < confidence rect"
      proof -
        have "A \<noteq> 0" using that classifyRectangle_area unfolding rect_def by blast
        then have "0 < w \<and> 0 < h"
          using area_needs_extent [OF A _ subseq_set [OF sub]] w h by simp
        then show ?thesis
          using classifyRectangle_positive [of w h pts rawClosed P A color]
          by (simp add: rect_def)
      qed
      have wf_circ: "wellFormed (shape circ)" if "0.4 < confidence circ"
        using classifyCircle_positive [OF that [unfolded circ_def]]
        by (simp add: circ_def)
      have wf_tri: "wellFormed (shape tri)"
        using classifyTriangle_shape [OF tri] len by (auto simp: wellFormed_def)
      have "wellFormed (shape (hd (sortBy ?cmp survivors)))"
        using mem conf wf_rect wf_circ wf_tri by auto
      then show ?thesis using r False by simp
    qed
  qed
qed

theorem recognize_invariants_witness:
  "slab \<noteq> [] \<and> recognize slab ''red'' = Some (Rect 0 0 40 8 ''red'') \<and>
   wellFormed (Rect 0 0 40 8 ''red'')"
proof -
  have ne: "slab \<noteq> []" by simp
  obtain s where s: "recognize slab ''red'' = Some s" "wellFormed s"
    using recognize_invariants [OF ne, of "''red''"] by (elim exE conjE)
  have "s = Rect 0 0 40 8 ''red''"
    using s(1) by (simp only: slab_recognize option.inject)
  then show ?thesis
    using s ne by blast
qed

section \<open>Scaling\<close>




lemma hypot_eq_0 [simp]: "hypot a b = 0 \<longleftrightarrow> a = 0 \<and> b = 0"
  by (simp add: hypot_def power2_eq_square [symmetric] sum_power2_eq_zero_iff)













































lemma confidence_scaleCandidate [simp]: "confidence (scaleCandidate k c) = confidence c"
  by (simp add: scaleCandidate_def)

lemma shape_scaleCandidate [simp]: "shape (scaleCandidate k c) = scaleShape k (shape c)"
  by (simp add: scaleCandidate_def)





text \<open>
  In doubles the law above fails at scales that are not powers of two, also away from
  the absolute thresholds. The near-square test is an example. For a box of 480 by 400
  the program computes \<open>480 / 400 - 1\<close> as 0.19999999999999996, below its 0.2, and snaps
  the rectangle to a square; for the copy of the box scaled by 0.93, whose sides are the
  doubles nearest to \<open>0.93 * 480\<close> and \<open>0.93 * 400\<close>, it computes 0.20000000000000018 and
  does not. In exact arithmetic the difference is 0.2 for both and neither is snapped.
\<close>

lemma fl_box_m3:
  "fl (900719925474099 / 4503599627370496) = 900719925474099 / 4503599627370496"
  "fl (225179981368525 / 1125899906842624) = 225179981368525 / 1125899906842624"
  "fl (1 / 5) = 3602879701896397 / 18014398509481984"
  by ((subst fl_eval [where e = "- 3"], simp_all add: rne_def)+)

lemma fl_box_m1:
  "fl (93 / 100) = 8376695306909123 / 9007199254740992"
  by ((subst fl_eval [where e = "- 1"], simp_all add: rne_def)+)

lemma fl_box_e0:
  "fl (6 / 5) = 5404319552844595 / 4503599627370496"
  "fl (2617717283409101 / 2181431069507584) = 1351079888211149 / 1125899906842624"
  by ((subst fl_eval [where e = 0], simp_all add: rne_def)+)

lemma fl_box_e8:
  "fl (125650429603636845 / 281474976710656) = 7853151850227303 / 17592186044416"
  "fl (209417382672728075 / 562949953421312) = 372"
  by ((subst fl_eval [where e = 8], simp_all add: rne_def)+)

lemmas fl_box =
  fl_box_m3 fl_box_m1 fl_box_e0 fl_box_e8

lemma near_square_doubles:
  "nearSquareD 480 400 \<and> \<not> nearSquareD (fl (fl 0.93 * 480)) (fl (fl 0.93 * 400))"
  by (simp add: nearSquareD_def or1_def fl_box)

lemma nearSquareD_scale:
  assumes "H \<noteq> 0"
  shows "nearSquareD (2 powi n * W) (2 powi n * H) = nearSquareD W H"
  using assms by (simp add: nearSquareD_def or1_def)

lemma near_square_exact:
  "\<not> \<bar>480 / 400 - 1\<bar> < (0.2 :: real) \<and> \<not> \<bar>(0.93 * 480) / (0.93 * 400) - 1\<bar> < (0.2 :: real)"
  by simp








end
